theory Spec2Isabelle
  imports Main "HOL-Library.Word" "HOL-Library.Signed_Division"
begin

section \<open>The device interface layer of emu/devintrf.c\<close>

text \<open>
  A shallow embedding of \<^verbatim>\<open>src/emu/devintrf.c\<close>: the device registry (an intrusive
  list of device records linked through \<^verbatim>\<open>next\<close> and \<^verbatim>\<open>typenext\<close>), the lifecycle
  functions that start and stop the devices of a machine, the tag resolver and the pool
  of temporary string buffers.

  Conventions of the embedding.
  \<^item> Pointers are addresses (\<open>addr\<close>); a pointer that may be \<^verbatim>\<open>NULL\<close> is an
    \<open>addr option\<close>. Device records live in a store \<open>cells\<close>, token blocks in a
    store \<open>blocks\<close>.
  \<^item> A function of the C file that walks a chain is a \<^theory_text>\<open>partial_function\<close> in
    the option monad: the value \<open>None\<close> means that the C function has no defined
    result (it never leaves a cyclic chain, it reads a record that is not live, or it
    calls through a \<^verbatim>\<open>NULL\<close> function pointer).
  \<^item> \<^verbatim>\<open>fatalerror\<close> ends the process; it is the \<open>Inl\<close> branch of the result,
    returned together with the memory as it is at that moment.
  \<^item> C strings are HOL strings (the characters before the terminating NUL).
\<close>

subsection \<open>Data\<close>

type_synonym addr = nat

text \<open>
  A \<^verbatim>\<open>device_type\<close> is a pointer to the query function of the type; \<open>None\<close> is the
  \<^verbatim>\<open>NULL\<close> pointer, \<open>Some f\<close> the function with identity \<open>f\<close>.
\<close>

type_synonym device_type = "nat option"

text \<open>
  The fields of \<^verbatim>\<open>struct _device_config\<close> that devintrf.c reads and writes. The
  inline configuration is the zero-filled blob behind the tag (\<open>None\<close> when the type
  declares no inline configuration).
\<close>

record device_config =
  "next" :: "addr option"
  typenext :: "addr option"
  "type" :: device_type
  "class" :: "32 word"
  set_info :: "nat option"
  static_config :: "addr option"
  inline_config :: "8 word list option"
  started :: bool
  token :: "addr option"
  tokenbytes :: "32 word"
  machine :: "addr option"
  region :: "addr option"
  regionbytes :: "32 word"
  tag :: string

datatype callback = Device_list_reset | Device_list_stop

text \<open>
  The memory the layer works on: the head of the device list
  (\<^verbatim>\<open>machine->config->devicelist\<close>, \<^verbatim>\<open>*listheadptr\<close>), the live device records, the
  live token blocks, the allocator's next unused address, the callbacks registered
  with the machine, and \<open>frees\<close>, the history of the token pointers handed to
  \<^verbatim>\<open>free\<close> (it is only written, never read, by the functions below).
\<close>

record machine_state =
  devicelist :: "addr option"
  cells :: "addr \<rightharpoonup> device_config"
  blocks :: "addr \<rightharpoonup> 8 word list"
  brk :: addr
  reset_callbacks :: "callback list"
  exit_callbacks :: "callback list"
  frees :: "addr list"

text \<open>
  Modelled from the spec: the result of a start function is declared in devintrf.h,
  which is not among the sources; the spec says a start function returns success or
  deferred.
\<close>

datatype start_result = DEVICE_START_OK | DEVICE_START_MISSING_DEPENDENCY

text \<open>
  What the query function of a type answers for the states that devintrf.c asks for.
  The integer answers are \<^verbatim>\<open>INT64\<close>. A start function takes a
  \<^verbatim>\<open>const device_config *\<close>: it reads the memory and leaves the device records as
  they are. Of the stop function only its presence matters here.
\<close>

record type_desc =
  DEVINFO_INT_TOKEN_BYTES :: "64 word"
  DEVINFO_INT_INLINE_CONFIG_BYTES :: "64 word"
  DEVINFO_INT_CLASS :: "64 word"
  DEVINFO_FCT_SET_INFO :: "nat option"
  DEVINFO_FCT_START :: "(machine_state \<Rightarrow> addr \<Rightarrow> start_result) option"
  DEVINFO_FCT_STOP :: bool

text \<open>
  What devintrf.c takes from the rest of the emulator, none of it among the sources:
  whether \<^verbatim>\<open>assert\<close> is compiled in (\<^verbatim>\<open>MAME_DEBUG\<close>), the value of the wildcard
  type, the query functions of the device types, the memory regions of the machine,
  and the contents that freshly allocated memory happens to hold in the one field of
  a device record that \<^verbatim>\<open>device_list_add\<close> does not assign (\<^verbatim>\<open>tokenbytes\<close>).
\<close>

record env =
  MAME_DEBUG :: bool
  DEVICE_TYPE_WILDCARD :: device_type
  type_query :: "nat \<Rightarrow> type_desc"
  memory_region :: "addr \<Rightarrow> string \<Rightarrow> addr option"
  memory_region_length :: "addr \<Rightarrow> string \<Rightarrow> 32 word"
  uninitialised :: "addr \<Rightarrow> 32 word"

datatype error =
    Duplicate_device device_type string
  | Nonexistent_device device_type string
  | Zero_token_length addr
  | Circular_dependency int int
  | Assertion_failed

text \<open>An \<^verbatim>\<open>assert\<close> stops the program only in a build with \<^verbatim>\<open>MAME_DEBUG\<close>.\<close>

definition assert_fails :: "env \<Rightarrow> bool \<Rightarrow> bool" where
  "assert_fails E c = (MAME_DEBUG E \<and> \<not> c)"

subsection \<open>The pool of temporary strings\<close>

text \<open>
  \<^verbatim>\<open>temp_string_pool\<close> is an array of 16 buffers of 256 bytes and
  \<^verbatim>\<open>temp_string_pool_index\<close> a static \<^verbatim>\<open>int\<close>, zero when the program starts.
\<close>

definition TEMP_STRING_POOL_ENTRIES :: int where
  "TEMP_STRING_POOL_ENTRIES = 16"

definition MAX_STRING_LENGTH :: nat where
  "MAX_STRING_LENGTH = 256"

record string_pool =
  temp_string_pool :: "8 word list list"
  temp_string_pool_index :: int

definition initial_pool :: string_pool where
  "initial_pool = \<lparr> temp_string_pool = replicate 16 (replicate MAX_STRING_LENGTH 0),
                    temp_string_pool_index = 0 \<rparr>"

text \<open>The C string that a buffer holds: its bytes before the first NUL.\<close>

definition c_string :: "8 word list \<Rightarrow> 8 word list" where
  "c_string buf = takeWhile (\<lambda>b. b \<noteq> 0) buf"

text \<open>
  \<^verbatim>\<open>get_temp_string_buffer\<close>. The result is the number of the buffer whose first byte
  the returned pointer addresses. \<^verbatim>\<open>%\<close> truncates towards zero (\<open>smod\<close>), so a
  negative index selects no buffer of the pool; incrementing \<^verbatim>\<open>INT_MAX\<close> is a signed
  overflow. Both have no defined result.
\<close>

definition get_temp_string_buffer :: "string_pool \<Rightarrow> (nat \<times> string_pool) option" where
  "get_temp_string_buffer p =
     (let i = temp_string_pool_index p;
          slot = i smod TEMP_STRING_POOL_ENTRIES
      in if i = 2 ^ 31 - 1 \<or> slot < 0 \<or> \<not> nat slot < length (temp_string_pool p)
         then None
         else Some (nat slot,
                p\<lparr> temp_string_pool_index := i + 1,
                   temp_string_pool :=
                     (temp_string_pool p)[nat slot := (temp_string_pool p ! nat slot)[0 := 0]] \<rparr>))"

text \<open>
  What the caller of \<^verbatim>\<open>get_temp_string_buffer\<close> does with the buffer: the query
  function of a device type copies a string and its terminating NUL into it.
\<close>

definition write_string :: "8 word list \<Rightarrow> 8 word list \<Rightarrow> 8 word list" where
  "write_string buf w = w @ [0] @ drop (Suc (length w)) buf"

text \<open>
  \<open>acquisitions ws p\<close>: one call of \<^verbatim>\<open>get_temp_string_buffer\<close> for each string of
  \<open>ws\<close>, which the caller writes into the buffer it got. The result lists the
  buffers returned, in the order of the calls.
\<close>

fun acquisitions :: "8 word list list \<Rightarrow> string_pool \<Rightarrow> (nat list \<times> string_pool) option" where
  "acquisitions [] p = Some ([], p)"
| "acquisitions (w # ws) p =
     (case get_temp_string_buffer p of
        None \<Rightarrow> None
      | Some (b, p') \<Rightarrow>
          (case acquisitions ws
                  (p'\<lparr>temp_string_pool :=
                       (temp_string_pool p')[b := write_string (temp_string_pool p' ! b) w]\<rparr>) of
             None \<Rightarrow> None
           | Some (bs, p'') \<Rightarrow> Some (b # bs, p'')))"

subsection \<open>The tag resolver\<close>

text \<open>
  Modelled from the spec: the \<^verbatim>\<open>astring\<close> functions are defined in lib/util/astring.c,
  which is not among the sources. \<^verbatim>\<open>astring_cpyc\<close> replaces the contents of the
  destination by a C string, \<^verbatim>\<open>astring_cpych\<close> by the first \<open>n\<close> characters of one,
  \<^verbatim>\<open>astring_catc\<close> appends a C string, and \<^verbatim>\<open>astring_c\<close> reads the contents.
\<close>

definition astring_cpyc :: "string \<Rightarrow> string \<Rightarrow> string" where
  "astring_cpyc dest src = src"

definition astring_cpych :: "string \<Rightarrow> string \<Rightarrow> nat \<Rightarrow> string" where
  "astring_cpych dest src n = take n src"

definition astring_catc :: "string \<Rightarrow> string \<Rightarrow> string" where
  "astring_catc dest src = dest @ src"

definition astring_c :: "string \<Rightarrow> string" where
  "astring_c dest = dest"

text \<open>\<^verbatim>\<open>strrchr\<close>: the position of the last occurrence of a character, if there is one.\<close>

fun strrchr :: "string \<Rightarrow> char \<Rightarrow> nat option" where
  "strrchr [] c = None"
| "strrchr (x # xs) c =
     (case strrchr xs c of
        Some i \<Rightarrow> Some (Suc i)
      | None \<Rightarrow> if x = c then Some 0 else None)"

text \<open>
  \<^verbatim>\<open>device_build_tag\<close>. The device is a pointer into the store of records; the result
  is the string read from \<^verbatim>\<open>dest\<close> at the end.
\<close>

definition device_build_tag ::
  "machine_state \<Rightarrow> string \<Rightarrow> addr option \<Rightarrow> string \<Rightarrow> string option" where
  "device_build_tag s dest device tg =
     (case device of
        Some a \<Rightarrow>
          (case cells s a of
             None \<Rightarrow> None
           | Some d \<Rightarrow>
               Some (astring_c (astring_catc (astring_catc (astring_cpyc dest (tag d)) '':'') tg)))
      | None \<Rightarrow> Some (astring_c (astring_cpyc dest tg)))"

definition device_inherit_tag :: "string \<Rightarrow> string \<Rightarrow> string \<Rightarrow> string" where
  "device_inherit_tag dest sourcetag tg =
     (case strrchr sourcetag CHR '':'' of
        Some divider \<Rightarrow> astring_c (astring_catc (astring_cpych dest sourcetag (divider + 1)) tg)
      | None \<Rightarrow> astring_c (astring_cpyc dest tg))"

subsection \<open>The device registry\<close>

text \<open>
  Assertions on an argument that the embedding cannot make \<^verbatim>\<open>NULL\<close> (the tag, a
  string; the pointer to the list head; the machine, an address) have no counterpart
  below; every other \<^verbatim>\<open>assert\<close> of the C file is a test of \<open>assert_fails\<close>.
\<close>

definition device_matches_type :: "env \<Rightarrow> device_config \<Rightarrow> device_type \<Rightarrow> bool" where
  "device_matches_type E device ty =
     (if ty = DEVICE_TYPE_WILDCARD E then True else type device = ty)"

text \<open>
  Modelled from the spec: \<^verbatim>\<open>malloc_or_die\<close> is not among the sources. It never returns
  without memory; the block it returns is not live, here the next unused address.
\<close>

definition malloc_or_die :: "machine_state \<Rightarrow> addr \<times> machine_state" where
  "malloc_or_die s = (brk s, s\<lparr>brk := Suc (brk s)\<rparr>)"

text \<open>
  \<^verbatim>\<open>devptr\<close> of \<^verbatim>\<open>device_list_add\<close> and \<^verbatim>\<open>device_list_remove\<close> points to a link of the
  global chain: the list head or the \<^verbatim>\<open>next\<close> field of a record. \<^verbatim>\<open>typedevptr\<close>
  points to the local variable \<^verbatim>\<open>typedevice\<close> or to the \<^verbatim>\<open>typenext\<close> field of a
  record.
\<close>

datatype devlink = Listhead | Next_of addr

datatype typelink = Typedevice | Typenext_of addr

definition store_devlink :: "machine_state \<Rightarrow> devlink \<Rightarrow> addr option \<Rightarrow> machine_state option" where
  "store_devlink s l v =
     (case l of
        Listhead \<Rightarrow> Some (s\<lparr>devicelist := v\<rparr>)
      | Next_of a \<Rightarrow>
          (case cells s a of
             None \<Rightarrow> None
           | Some d \<Rightarrow> Some (s\<lparr>cells := (cells s)(a \<mapsto> d\<lparr>next := v\<rparr>)\<rparr>)))"

text \<open>A store through \<^verbatim>\<open>&typedevice\<close> changes the local variable only.\<close>

definition store_typelink :: "machine_state \<Rightarrow> typelink \<Rightarrow> addr option \<Rightarrow> machine_state option" where
  "store_typelink s l v =
     (case l of
        Typedevice \<Rightarrow> Some s
      | Typenext_of a \<Rightarrow>
          (case cells s a of
             None \<Rightarrow> None
           | Some d \<Rightarrow> Some (s\<lparr>cells := (cells s)(a \<mapsto> d\<lparr>typenext := v\<rparr>)\<rparr>)))"

text \<open>\<^verbatim>\<open>device_list_first\<close>: \<open>curdev\<close> is the loop variable, at first the list head.\<close>

partial_function (option) device_list_first ::
  "env \<Rightarrow> machine_state \<Rightarrow> addr option \<Rightarrow> device_type \<Rightarrow> addr option option" where
  "device_list_first E s curdev ty =
     (case curdev of
        None \<Rightarrow> Some None
      | Some a \<Rightarrow>
          (case cells s a of
             None \<Rightarrow> None
           | Some d \<Rightarrow>
               if device_matches_type E d ty then Some (Some a)
               else device_list_first E s (next d) ty))"

definition device_list_next ::
  "env \<Rightarrow> machine_state \<Rightarrow> addr option \<Rightarrow> device_type \<Rightarrow> (error + addr option) option" where
  "device_list_next E s prevdevice ty =
     (if assert_fails E (prevdevice \<noteq> None) then Some (Inl Assertion_failed)
      else case prevdevice of
             None \<Rightarrow> None
           | Some a \<Rightarrow>
               (case cells s a of
                  None \<Rightarrow> None
                | Some d \<Rightarrow>
                    Some (Inr (if ty = DEVICE_TYPE_WILDCARD E then next d else typenext d))))"

partial_function (option) items_loop ::
  "env \<Rightarrow> machine_state \<Rightarrow> addr option \<Rightarrow> device_type \<Rightarrow> int \<Rightarrow> int option" where
  "items_loop E s curdev ty count =
     (case curdev of
        None \<Rightarrow> Some count
      | Some a \<Rightarrow>
          (case cells s a of
             None \<Rightarrow> None
           | Some d \<Rightarrow>
               items_loop E s (next d) ty
                 (count + (if device_matches_type E d ty then 1 else 0))))"

definition device_list_items ::
  "env \<Rightarrow> machine_state \<Rightarrow> addr option \<Rightarrow> device_type \<Rightarrow> (error + int) option" where
  "device_list_items E s listhead ty =
     (if assert_fails E (ty \<noteq> None) then Some (Inl Assertion_failed)
      else map_option Inr (items_loop E s listhead ty 0))"

partial_function (option) device_list_find_by_tag ::
  "env \<Rightarrow> machine_state \<Rightarrow> addr option \<Rightarrow> device_type \<Rightarrow> string \<Rightarrow> addr option option" where
  "device_list_find_by_tag E s curdev ty tg =
     (case curdev of
        None \<Rightarrow> Some None
      | Some a \<Rightarrow>
          (case cells s a of
             None \<Rightarrow> None
           | Some d \<Rightarrow>
               if device_matches_type E d ty \<and> tg = tag d then Some (Some a)
               else device_list_find_by_tag E s (next d) ty tg))"

partial_function (option) index_loop ::
  "env \<Rightarrow> machine_state \<Rightarrow> addr option \<Rightarrow> device_type \<Rightarrow> string \<Rightarrow> int \<Rightarrow> int option" where
  "index_loop E s curdev ty tg index =
     (case curdev of
        None \<Rightarrow> Some (- 1)
      | Some a \<Rightarrow>
          (case cells s a of
             None \<Rightarrow> None
           | Some d \<Rightarrow>
               if device_matches_type E d ty
               then (if tg = tag d then Some index
                     else index_loop E s (next d) ty tg (index + 1))
               else index_loop E s (next d) ty tg index))"

definition device_list_index ::
  "env \<Rightarrow> machine_state \<Rightarrow> addr option \<Rightarrow> device_type \<Rightarrow> string \<Rightarrow> (error + int) option" where
  "device_list_index E s listhead ty tg =
     (if assert_fails E (ty \<noteq> None) then Some (Inl Assertion_failed)
      else map_option Inr (index_loop E s listhead ty tg 0))"

text \<open>
  The loop of \<^verbatim>\<open>device_list_find_by_index\<close>: \<^verbatim>\<open>index-- == 0\<close> is evaluated, and the
  index decremented, only at a device that matches the type.
\<close>

partial_function (option) find_by_index_loop ::
  "env \<Rightarrow> machine_state \<Rightarrow> addr option \<Rightarrow> device_type \<Rightarrow> int \<Rightarrow> addr option option" where
  "find_by_index_loop E s curdev ty index =
     (case curdev of
        None \<Rightarrow> Some None
      | Some a \<Rightarrow>
          (case cells s a of
             None \<Rightarrow> None
           | Some d \<Rightarrow>
               if device_matches_type E d ty
               then (if index = 0 then Some (Some a)
                     else find_by_index_loop E s (next d) ty (index - 1))
               else find_by_index_loop E s (next d) ty index))"

definition device_list_find_by_index ::
  "env \<Rightarrow> machine_state \<Rightarrow> addr option \<Rightarrow> device_type \<Rightarrow> int \<Rightarrow> (error + addr option) option" where
  "device_list_find_by_index E s listhead ty index =
     (if assert_fails E (ty \<noteq> None) \<or> assert_fails E (index \<ge> 0) then Some (Inl Assertion_failed)
      else map_option Inr (find_by_index_loop E s listhead ty index))"

text \<open>
  The first loop of \<^verbatim>\<open>device_list_add\<close>: \<open>p\<close> is \<^verbatim>\<open>*devptr\<close>. It ends at the link that
  holds \<^verbatim>\<open>NULL\<close>, or with the fatal error at a device of the same type and tag.
\<close>

partial_function (option) add_scan ::
  "machine_state \<Rightarrow> device_type \<Rightarrow> string \<Rightarrow> devlink \<Rightarrow> addr option \<Rightarrow> (error + devlink) option" where
  "add_scan s ty tg devptr p =
     (case p of
        None \<Rightarrow> Some (Inr devptr)
      | Some a \<Rightarrow>
          (case cells s a of
             None \<Rightarrow> None
           | Some d \<Rightarrow>
               if ty = type d \<and> tg = tag d then Some (Inl (Duplicate_device ty tg))
               else add_scan s ty tg (Next_of a) (next d)))"

text \<open>The loop over the type chain in \<^verbatim>\<open>device_list_add\<close>: \<open>p\<close> is \<^verbatim>\<open>*typedevptr\<close>.\<close>

partial_function (option) type_end ::
  "machine_state \<Rightarrow> typelink \<Rightarrow> addr option \<Rightarrow> typelink option" where
  "type_end s typedevptr p =
     (case p of
        None \<Rightarrow> Some typedevptr
      | Some a \<Rightarrow>
          (case cells s a of
             None \<Rightarrow> None
           | Some d \<Rightarrow> type_end s (Typenext_of a) (typenext d)))"

text \<open>
  The record that \<^verbatim>\<open>device_list_add\<close> writes into the block at \<open>device\<close> before it
  links it: every field is assigned except \<^verbatim>\<open>tokenbytes\<close>, which keeps what the
  block held.
\<close>

definition new_device :: "env \<Rightarrow> nat \<Rightarrow> addr \<Rightarrow> string \<Rightarrow> device_config" where
  "new_device E f device tg =
     (let configlen = (ucast (DEVINFO_INT_INLINE_CONFIG_BYTES (type_query E f)) :: 32 word)
      in \<lparr> next = None, typenext = None, type = Some f,
           class = ucast (DEVINFO_INT_CLASS (type_query E f)),
           set_info = DEVINFO_FCT_SET_INFO (type_query E f),
           static_config = None,
           inline_config = (if configlen = 0 then None else Some (replicate (unat configlen) 0)),
           started = False, token = None,
           tokenbytes = uninitialised E device,
           machine = None, region = None, regionbytes = 0, tag = tg \<rparr>)"

definition device_list_add ::
  "env \<Rightarrow> machine_state \<Rightarrow> device_type \<Rightarrow> string \<Rightarrow> ((error + addr) \<times> machine_state) option" where
  "device_list_add E s ty tg =
     (if assert_fails E (ty \<noteq> None) then Some (Inl Assertion_failed, s)
      else case add_scan s ty tg Listhead (devicelist s) of
        None \<Rightarrow> None
      | Some (Inl e) \<Rightarrow> Some (Inl e, s)
      | Some (Inr devptr) \<Rightarrow>
          (case ty of
             None \<Rightarrow> None
           | Some f \<Rightarrow>
               let (device, s1) = malloc_or_die s;
                   s2 = s1\<lparr>cells := (cells s1)(device \<mapsto> new_device E f device tg)\<rparr>
               in case device_list_first E s2 (devicelist s2) ty of
                    None \<Rightarrow> None
                  | Some typedevice \<Rightarrow>
                      (case type_end s2 Typedevice typedevice of
                         None \<Rightarrow> None
                       | Some typedevptr \<Rightarrow>
                           (case store_typelink s2 typedevptr (Some device) of
                              None \<Rightarrow> None
                            | Some s3 \<Rightarrow>
                                (case store_devlink s3 devptr (Some device) of
                                   None \<Rightarrow> None
                                 | Some s4 \<Rightarrow> Some (Inr device, s4))))))"

text \<open>
  The first loop of \<^verbatim>\<open>device_list_remove\<close> stops at the link to the device of the
  given type and tag, or at the link that holds \<^verbatim>\<open>NULL\<close>; it yields \<^verbatim>\<open>devptr\<close> and
  \<^verbatim>\<open>*devptr\<close>.
\<close>

partial_function (option) remove_scan ::
  "machine_state \<Rightarrow> device_type \<Rightarrow> string \<Rightarrow> devlink \<Rightarrow> addr option \<Rightarrow>
     (devlink \<times> addr option) option" where
  "remove_scan s ty tg devptr p =
     (case p of
        None \<Rightarrow> Some (devptr, None)
      | Some a \<Rightarrow>
          (case cells s a of
             None \<Rightarrow> None
           | Some d \<Rightarrow>
               if ty = type d \<and> tg = tag d then Some (devptr, Some a)
               else remove_scan s ty tg (Next_of a) (next d)))"

text \<open>
  The loop over the type chain in \<^verbatim>\<open>device_list_remove\<close> runs until \<^verbatim>\<open>*typedevptr\<close> is
  the device; at the end of a chain without the device it reads through \<^verbatim>\<open>NULL\<close>.
\<close>

partial_function (option) type_find ::
  "machine_state \<Rightarrow> addr \<Rightarrow> typelink \<Rightarrow> addr option \<Rightarrow> typelink option" where
  "type_find s device typedevptr p =
     (if p = Some device then Some typedevptr
      else case p of
             None \<Rightarrow> None
           | Some a \<Rightarrow>
               (case cells s a of
                  None \<Rightarrow> None
                | Some d \<Rightarrow> type_find s device (Typenext_of a) (typenext d)))"

definition device_list_remove ::
  "env \<Rightarrow> machine_state \<Rightarrow> device_type \<Rightarrow> string \<Rightarrow> ((error + unit) \<times> machine_state) option" where
  "device_list_remove E s ty tg =
     (if assert_fails E (ty \<noteq> None) then Some (Inl Assertion_failed, s)
      else case remove_scan s ty tg Listhead (devicelist s) of
        None \<Rightarrow> None
      | Some (devptr, None) \<Rightarrow> Some (Inl (Nonexistent_device ty tg), s)
      | Some (devptr, Some device) \<Rightarrow>
          (case cells s device of
             None \<Rightarrow> None
           | Some d \<Rightarrow>
               (case device_list_first E s (devicelist s) ty of
                  None \<Rightarrow> None
                | Some typedevice \<Rightarrow>
                    (case type_find s device Typedevice typedevice of
                       None \<Rightarrow> None
                     | Some typedevptr \<Rightarrow>
                         (case store_typelink s typedevptr (typenext d) of
                            None \<Rightarrow> None
                          | Some s1 \<Rightarrow>
                              (case store_devlink s1 devptr (next d) of
                                 None \<Rightarrow> None
                               | Some s2 \<Rightarrow>
                                   Some (Inr (), s2\<lparr>cells := (cells s2)(device := None)\<rparr>)))))))"

text \<open>
  The loop with which the callers of the registry visit the devices of a type,
  \<^verbatim>\<open>for (d = device_list_first(head, type); d != NULL; d = device_list_next(d, type))\<close>,
  here collecting the devices visited; \<open>p\<close> is the loop variable \<^verbatim>\<open>d\<close>.
\<close>

partial_function (option) visit_from ::
  "env \<Rightarrow> machine_state \<Rightarrow> device_type \<Rightarrow> addr option \<Rightarrow> addr list option" where
  "visit_from E s ty p =
     (case p of
        None \<Rightarrow> Some []
      | Some a \<Rightarrow>
          (case device_list_next E s p ty of
             None \<Rightarrow> None
           | Some n \<Rightarrow>
               (case n of
                  Inl e \<Rightarrow> None
                | Inr q \<Rightarrow> Option.bind (visit_from E s ty q) (\<lambda>r. Some (a # r)))))"

definition traversal :: "env \<Rightarrow> machine_state \<Rightarrow> device_type \<Rightarrow> addr list option" where
  "traversal E s ty =
     (case device_list_first E s (devicelist s) ty of
        None \<Rightarrow> None
      | Some p \<Rightarrow> visit_from E s ty p)"

text \<open>A registry is built by a sequence of additions and removals; a fatal error ends it.\<close>

datatype registry_op = Add device_type string | Remove device_type string

fun run_ops :: "env \<Rightarrow> machine_state \<Rightarrow> registry_op list \<Rightarrow> ((error + unit) \<times> machine_state) option" where
  "run_ops E s [] = Some (Inr (), s)"
| "run_ops E s (Add ty tg # ops) =
     (case device_list_add E s ty tg of
        None \<Rightarrow> None
      | Some (Inl e, s') \<Rightarrow> Some (Inl e, s')
      | Some (Inr a, s') \<Rightarrow> run_ops E s' ops)"
| "run_ops E s (Remove ty tg # ops) =
     (case device_list_remove E s ty tg of
        None \<Rightarrow> None
      | Some (Inl e, s') \<Rightarrow> Some (Inl e, s')
      | Some (Inr u, s') \<Rightarrow> run_ops E s' ops)"

text \<open>The registry before the first addition.\<close>

definition empty_registry :: machine_state where
  "empty_registry = \<lparr> devicelist = None, cells = Map.empty, blocks = Map.empty, brk = 0,
                       reset_callbacks = [], exit_callbacks = [], frees = [] \<rparr>"

subsection \<open>Live device management\<close>

text \<open>
  \<^verbatim>\<open>device_get_info_fct\<close> (and the direct call of the query function of the type in
  \<^verbatim>\<open>device_list_start\<close>): \<open>state\<close> selects the answer. The state identifiers that
  devintrf.c passes are taken to lie in the range their accessor asserts.
\<close>

definition device_get_info_fct ::
  "env \<Rightarrow> machine_state \<Rightarrow> addr \<Rightarrow> (type_desc \<Rightarrow> 'a) \<Rightarrow> (error + 'a) option" where
  "device_get_info_fct E s device state =
     (case cells s device of
        None \<Rightarrow> None
      | Some d \<Rightarrow>
          if assert_fails E (type d \<noteq> None) then Some (Inl Assertion_failed)
          else (case type d of
                  None \<Rightarrow> None
                | Some f \<Rightarrow> Some (Inr (state (type_query E f)))))"

partial_function (option) attach_loop ::
  "machine_state \<Rightarrow> addr option \<Rightarrow> addr \<Rightarrow> machine_state option" where
  "attach_loop s device m =
     (case device of
        None \<Rightarrow> Some s
      | Some a \<Rightarrow>
          (case cells s a of
             None \<Rightarrow> None
           | Some d \<Rightarrow>
               attach_loop (s\<lparr>cells := (cells s)(a \<mapsto> d\<lparr>machine := Some m\<rparr>)\<rparr>) (next d) m))"

definition device_list_attach_machine :: "machine_state \<Rightarrow> addr \<Rightarrow> machine_state option" where
  "device_list_attach_machine s m = attach_loop s (devicelist s) m"

text \<open>
  The body of the first loop of \<^verbatim>\<open>device_list_start\<close> for the device at \<open>a\<close>:
  \<^verbatim>\<open>tokenbytes\<close> is assigned before it is tested, the token is allocated and
  zero-filled, then the other runtime fields are filled in.
\<close>

definition start_allocate ::
  "env \<Rightarrow> addr \<Rightarrow> machine_state \<Rightarrow> addr \<Rightarrow> ((error + unit) \<times> machine_state) option" where
  "start_allocate E m s a =
     (case cells s a of
        None \<Rightarrow> None
      | Some d \<Rightarrow>
          if assert_fails E (\<not> started d) \<or> assert_fails E (machine d = Some m)
             \<or> assert_fails E (token d = None) \<or> assert_fails E (type d \<noteq> None)
          then Some (Inl Assertion_failed, s)
          else (case type d of
                  None \<Rightarrow> None
                | Some f \<Rightarrow>
                    let tb = (ucast (DEVINFO_INT_TOKEN_BYTES (type_query E f)) :: 32 word);
                        d1 = d\<lparr>tokenbytes := tb\<rparr>
                    in if tb = 0
                       then Some (Inl (Zero_token_length a), s\<lparr>cells := (cells s)(a \<mapsto> d1)\<rparr>)
                       else let (t, s1) = malloc_or_die s;
                                d2 = d1\<lparr> token := Some t, machine := Some m,
                                         region := memory_region E m (tag d),
                                         regionbytes := memory_region_length E m (tag d) \<rparr>
                            in Some (Inr (),
                                 s1\<lparr> blocks := (blocks s1)(t \<mapsto> replicate (unat tb) 0),
                                     cells := (cells s1)(a \<mapsto> d2) \<rparr>)))"

partial_function (option) start_alloc_loop ::
  "env \<Rightarrow> addr \<Rightarrow> machine_state \<Rightarrow> addr option \<Rightarrow> int \<Rightarrow> ((error + int) \<times> machine_state) option" where
  "start_alloc_loop E m s device devcount =
     (case device of
        None \<Rightarrow> Some (Inr devcount, s)
      | Some a \<Rightarrow>
          (case start_allocate E m s a of
             None \<Rightarrow> None
           | Some (r, s') \<Rightarrow>
               (case r of
                  Inl e \<Rightarrow> Some (Inl e, s')
                | Inr u \<Rightarrow>
                    (case cells s' a of
                       None \<Rightarrow> None
                     | Some d \<Rightarrow> start_alloc_loop E m s' (next d) (devcount + 1)))))"

text \<open>
  The body of the inner loop of the second phase: the start function of the device is
  fetched, and called only if the device is not started yet.
\<close>

definition start_device ::
  "env \<Rightarrow> machine_state \<Rightarrow> addr \<Rightarrow> ((error + unit) \<times> machine_state) option" where
  "start_device E s a =
     (case device_get_info_fct E s a DEVINFO_FCT_START of
        None \<Rightarrow> None
      | Some (Inl e) \<Rightarrow> Some (Inl e, s)
      | Some (Inr start) \<Rightarrow>
          if assert_fails E (start \<noteq> None) then Some (Inl Assertion_failed, s)
          else (case cells s a of
                  None \<Rightarrow> None
                | Some d \<Rightarrow>
                    if \<not> started d
                    then (case start of
                            None \<Rightarrow> None
                          | Some f \<Rightarrow>
                              if f s a = DEVICE_START_OK
                              then Some (Inr (), s\<lparr>cells := (cells s)(a \<mapsto> d\<lparr>started := True\<rparr>)\<rparr>)
                              else Some (Inr (), s))
                    else Some (Inr (), s)))"

partial_function (option) start_sweep ::
  "env \<Rightarrow> machine_state \<Rightarrow> addr option \<Rightarrow> int \<Rightarrow> ((error + int) \<times> machine_state) option" where
  "start_sweep E s device numstarted =
     (case device of
        None \<Rightarrow> Some (Inr numstarted, s)
      | Some a \<Rightarrow>
          (case start_device E s a of
             None \<Rightarrow> None
           | Some (r, s') \<Rightarrow>
               (case r of
                  Inl e \<Rightarrow> Some (Inl e, s')
                | Inr u \<Rightarrow>
                    (case cells s' a of
                       None \<Rightarrow> None
                     | Some d \<Rightarrow>
                         start_sweep E s' (next d)
                           (numstarted + (if started d then 1 else 0))))))"

text \<open>
  The \<^verbatim>\<open>while\<close> loop of \<^verbatim>\<open>device_list_start\<close>. \<open>sweeps\<close> counts the passes made so
  far; the C function has no such variable, and nothing below depends on it except
  the number returned at the end.
\<close>

partial_function (option) start_loop ::
  "env \<Rightarrow> machine_state \<Rightarrow> int \<Rightarrow> int \<Rightarrow> nat \<Rightarrow> ((error + nat) \<times> machine_state) option" where
  "start_loop E s numstarted devcount sweeps =
     (if numstarted < devcount
      then (case start_sweep E s (devicelist s) 0 of
              None \<Rightarrow> None
            | Some (r, s') \<Rightarrow>
                (case r of
                   Inl e \<Rightarrow> Some (Inl e, s')
                 | Inr n \<Rightarrow>
                     if n = numstarted
                     then Some (Inl (Circular_dependency (devcount - n) devcount), s')
                     else start_loop E s' n devcount (Suc sweeps)))
      else Some (Inr sweeps, s))"

text \<open>
  Modelled from the spec: \<^verbatim>\<open>add_reset_callback\<close> and \<^verbatim>\<open>add_exit_callback\<close> are not
  among the sources; they register a hook with the machine.
\<close>

definition add_reset_callback :: "machine_state \<Rightarrow> callback \<Rightarrow> machine_state" where
  "add_reset_callback s c = s\<lparr>reset_callbacks := reset_callbacks s @ [c]\<rparr>"

definition add_exit_callback :: "machine_state \<Rightarrow> callback \<Rightarrow> machine_state" where
  "add_exit_callback s c = s\<lparr>exit_callbacks := exit_callbacks s @ [c]\<rparr>"

text \<open>
  \<^verbatim>\<open>device_list_start\<close> for the machine \<open>m\<close>, whose device list is \<open>devicelist s\<close>. When
  it returns it yields the number of passes of the \<^verbatim>\<open>while\<close> loop.
\<close>

definition device_list_start ::
  "env \<Rightarrow> addr \<Rightarrow> machine_state \<Rightarrow> ((error + nat) \<times> machine_state) option" where
  "device_list_start E m s =
     (let s0 = add_exit_callback (add_reset_callback s Device_list_reset) Device_list_stop
      in case start_alloc_loop E m s0 (devicelist s0) 0 of
           None \<Rightarrow> None
         | Some (Inl e, s1) \<Rightarrow> Some (Inl e, s1)
         | Some (Inr devcount, s1) \<Rightarrow> start_loop E s1 0 devcount 0)"

text \<open>
  \<^verbatim>\<open>free\<close> of a token block, recorded in \<open>frees\<close>. Freeing a block that is not live
  (a second time, say) has no defined result.
\<close>

definition free :: "machine_state \<Rightarrow> addr \<Rightarrow> machine_state option" where
  "free s t =
     (if blocks s t = None then None
      else Some (s\<lparr>blocks := (blocks s)(t := None), frees := frees s @ [t]\<rparr>))"

text \<open>
  The body of the loop of \<^verbatim>\<open>device_list_stop\<close>. The stop function, when the type has
  one, is called on a \<^verbatim>\<open>const device_config *\<close>; the call leaves this memory as it
  is.
\<close>

definition stop_device ::
  "env \<Rightarrow> machine_state \<Rightarrow> addr \<Rightarrow> ((error + unit) \<times> machine_state) option" where
  "stop_device E s a =
     (case device_get_info_fct E s a DEVINFO_FCT_STOP of
        None \<Rightarrow> None
      | Some (Inl e) \<Rightarrow> Some (Inl e, s)
      | Some (Inr stop) \<Rightarrow>
          (case cells s a of
             None \<Rightarrow> None
           | Some d \<Rightarrow>
               if assert_fails E (token d \<noteq> None) \<or> assert_fails E (type d \<noteq> None)
               then Some (Inl Assertion_failed, s)
               else (case (case token d of None \<Rightarrow> Some s | Some t \<Rightarrow> free s t) of
                       None \<Rightarrow> None
                     | Some s1 \<Rightarrow>
                         Some (Inr (),
                           s1\<lparr>cells := (cells s1)(a \<mapsto>
                                 d\<lparr> token := None, tokenbytes := 0, machine := None,
                                    region := None, regionbytes := 0 \<rparr>)\<rparr>))))"

partial_function (option) stop_loop ::
  "env \<Rightarrow> machine_state \<Rightarrow> addr option \<Rightarrow> ((error + unit) \<times> machine_state) option" where
  "stop_loop E s device =
     (case device of
        None \<Rightarrow> Some (Inr (), s)
      | Some a \<Rightarrow>
          (case stop_device E s a of
             None \<Rightarrow> None
           | Some (r, s') \<Rightarrow>
               (case r of
                  Inl e \<Rightarrow> Some (Inl e, s')
                | Inr u \<Rightarrow>
                    (case cells s' a of
                       None \<Rightarrow> None
                     | Some d \<Rightarrow> stop_loop E s' (next d)))))"

definition device_list_stop ::
  "env \<Rightarrow> machine_state \<Rightarrow> ((error + unit) \<times> machine_state) option" where
  "device_list_stop E s = stop_loop E s (devicelist s)"

subsection \<open>Notions used in the statements\<close>

text \<open>
  A pool as the program has it: 16 buffers of \<^verbatim>\<open>MAX_STRING_LENGTH\<close> bytes. A string
  that fits a buffer: no NUL inside, and room for the terminating NUL.
\<close>

definition pool_ok :: "string_pool \<Rightarrow> bool" where
  "pool_ok p = (length (temp_string_pool p) = 16 \<and>
     (\<forall>b \<in> set (temp_string_pool p). length b = MAX_STRING_LENGTH))"

definition string_ok :: "8 word list \<Rightarrow> bool" where
  "string_ok w = (0 \<notin> set w \<and> length w < MAX_STRING_LENGTH)"

definition slot_of :: "int \<Rightarrow> nat" where
  "slot_of i = nat (i mod 16)"

text \<open>Seventeen one-letter strings, \<^verbatim>\<open>"A"\<close> to \<^verbatim>\<open>"Q"\<close>.\<close>

definition test_strings :: "8 word list list" where
  "test_strings = map (\<lambda>k. [of_nat k + 65]) [0..<17]"

text \<open>
  A device type for the examples: four bytes of token, no inline configuration, a
  start function that succeeds at once; and an environment with this type only,
  assertions compiled in, and \<^verbatim>\<open>NULL\<close> as the wildcard.
\<close>

definition test_type :: type_desc where
  "test_type = \<lparr> DEVINFO_INT_TOKEN_BYTES = 4, DEVINFO_INT_INLINE_CONFIG_BYTES = 0,
                  DEVINFO_INT_CLASS = 1, DEVINFO_FCT_SET_INFO = None,
                  DEVINFO_FCT_START = Some (\<lambda>s a. DEVICE_START_OK),
                  DEVINFO_FCT_STOP = False \<rparr>"

definition test_env :: env where
  "test_env = \<lparr> MAME_DEBUG = True, DEVICE_TYPE_WILDCARD = None,
                 type_query = (\<lambda>f. test_type),
                 memory_region = (\<lambda>m t. None),
                 memory_region_length = (\<lambda>m t. 0),
                 uninitialised = (\<lambda>a. 0) \<rparr>"

text \<open>
  \<open>chain h p as\<close>: in the store \<open>h\<close> the \<^verbatim>\<open>next\<close> pointers lead from \<open>p\<close> through
  exactly the live records at \<open>as\<close>, in this order, to \<^verbatim>\<open>NULL\<close>. \<open>tchain\<close> is the
  same for the \<^verbatim>\<open>typenext\<close> pointers.
\<close>

fun chain :: "(addr \<rightharpoonup> device_config) \<Rightarrow> addr option \<Rightarrow> addr list \<Rightarrow> bool" where
  "chain h p [] = (p = None)"
| "chain h p (a # as) =
     (p = Some a \<and> (case h a of None \<Rightarrow> False | Some d \<Rightarrow> chain h (next d) as))"

fun tchain :: "(addr \<rightharpoonup> device_config) \<Rightarrow> addr option \<Rightarrow> addr list \<Rightarrow> bool" where
  "tchain h p [] = (p = None)"
| "tchain h p (a # as) =
     (p = Some a \<and> (case h a of None \<Rightarrow> False | Some d \<Rightarrow> tchain h (typenext d) as))"

text \<open>The first element of a list, or \<^verbatim>\<open>NULL\<close>.\<close>

definition first_of :: "addr list \<Rightarrow> addr option" where
  "first_of as = (case as of [] \<Rightarrow> None | a # _ \<Rightarrow> Some a)"

text \<open>The records at \<open>as\<close> whose type is \<open>ty\<close>, in the order of \<open>as\<close>.\<close>

definition of_type :: "(addr \<rightharpoonup> device_config) \<Rightarrow> device_type \<Rightarrow> addr list \<Rightarrow> addr list" where
  "of_type h ty as = filter (\<lambda>b. map_option type (h b) = Some ty) as"

text \<open>
  \<open>typenext_ok h as\<close>: the \<^verbatim>\<open>typenext\<close> pointer of every record of the list \<open>as\<close>
  leads to the next record of the same type further down the list, and is \<^verbatim>\<open>NULL\<close>
  when there is none.
\<close>

fun typenext_ok :: "(addr \<rightharpoonup> device_config) \<Rightarrow> addr list \<Rightarrow> bool" where
  "typenext_ok h [] = True"
| "typenext_ok h (a # as) =
     (case h a of
        None \<Rightarrow> False
      | Some d \<Rightarrow>
          typenext d = first_of (of_type h (type d) as) \<and> typenext_ok h as)"

text \<open>
  A registry whose devices are, in the order of the global chain, the records at
  \<open>as\<close>: the chain is well formed, the type chains follow it, and the records lie
  below the allocator's next address.
\<close>

definition registry :: "machine_state \<Rightarrow> addr list \<Rightarrow> bool" where
  "registry s as =
     (chain (cells s) (devicelist s) as \<and> typenext_ok (cells s) as \<and> list_all (\<lambda>a. a < brk s) as)"

text \<open>The type and the tag of the record at an address.\<close>

definition key_of :: "machine_state \<Rightarrow> addr \<Rightarrow> (device_type \<times> string) option" where
  "key_of s a = map_option (\<lambda>d. (type d, tag d)) (cells s a)"

text \<open>The test of \<^verbatim>\<open>device_matches_type\<close> at the record an address holds.\<close>

definition matches_at :: "env \<Rightarrow> machine_state \<Rightarrow> device_type \<Rightarrow> addr \<Rightarrow> bool" where
  "matches_at E s ty a =
     (case cells s a of None \<Rightarrow> False | Some d \<Rightarrow> device_matches_type E d ty)"

text \<open>\<open>path h p as q\<close>: the \<^verbatim>\<open>next\<close> pointers lead from \<open>p\<close> through \<open>as\<close> to \<open>q\<close>.\<close>

fun path :: "(addr \<rightharpoonup> device_config) \<Rightarrow> addr option \<Rightarrow> addr list \<Rightarrow> addr option \<Rightarrow> bool" where
  "path h p [] q = (p = q)"
| "path h p (a # as) q =
     (p = Some a \<and> (case h a of None \<Rightarrow> False | Some d \<Rightarrow> path h (next d) as q))"

text \<open>The test of the loops for a device of a type and tag, at an address.\<close>

definition tagged_at :: "env \<Rightarrow> machine_state \<Rightarrow> device_type \<Rightarrow> string \<Rightarrow> addr \<Rightarrow> bool" where
  "tagged_at E s ty tg a =
     (case cells s a of None \<Rightarrow> False | Some d \<Rightarrow> device_matches_type E d ty \<and> tg = tag d)"

text \<open>
  The registry \<open>s\<close> with devices \<open>as\<close> after a new record of type \<open>f\<close> and tag \<open>tg\<close>
  has been put at the allocator's next address and linked behind the last record of
  the global chain and behind the last record of its type.
\<close>

definition linked :: "env \<Rightarrow> machine_state \<Rightarrow> addr list \<Rightarrow> nat \<Rightarrow> string \<Rightarrow> machine_state" where
  "linked E s as f tg =
     s\<lparr> brk := Suc (brk s),
        devicelist := (if as = [] then Some (brk s) else devicelist s),
        cells := (\<lambda>x.
          if x = brk s then Some (new_device E f (brk s) tg)
          else map_option
                 (\<lambda>d. d\<lparr> typenext :=
                            (if of_type (cells s) (Some f) as \<noteq> []
                                \<and> x = last (of_type (cells s) (Some f) as)
                             then Some (brk s) else typenext d),
                          next := (if as \<noteq> [] \<and> x = last as then Some (brk s) else next d) \<rparr>)
                 (cells s x)) \<rparr>"

text \<open>
  An example registry: one device of type 0 with tag \<^verbatim>\<open>"cpu"\<close>, added to the empty
  registry; its record is at address 0.
\<close>

definition one_device :: machine_state where
  "one_device = linked test_env empty_registry [] 0 ''cpu''"

text \<open>
  The registry \<open>s\<close> after the record at \<open>a\<close>, which holds \<open>da\<close> and follows the devices
  \<open>xs\<close> in the global chain, has been taken out of the global chain and of the chain
  of its type, and freed.
\<close>

definition unlinked :: "machine_state \<Rightarrow> addr list \<Rightarrow> addr \<Rightarrow> device_config \<Rightarrow> machine_state" where
  "unlinked s xs a da =
     s\<lparr> devicelist := (if xs = [] then next da else devicelist s),
        cells := (\<lambda>x.
          if x = a then None
          else map_option
                 (\<lambda>d. d\<lparr> typenext :=
                            (if of_type (cells s) (type da) xs \<noteq> []
                                \<and> x = last (of_type (cells s) (type da) xs)
                             then typenext da else typenext d),
                          next := (if xs \<noteq> [] \<and> x = last xs then next da else next d) \<rparr>)
                 (cells s x)) \<rparr>"

text \<open>
  The devices of a registry by type and tag, in the order of their insertion, after a
  sequence of additions and removals: an addition puts the pair at the end, a removal
  takes the pair out.
\<close>

fun registered :: "(device_type \<times> string) list \<Rightarrow> registry_op list \<Rightarrow> (device_type \<times> string) list" where
  "registered ks [] = ks"
| "registered ks (Add ty tg # ops) = registered (ks @ [(ty, tg)]) ops"
| "registered ks (Remove ty tg # ops) = registered (remove1 (ty, tg) ks) ops"

text \<open>An operation names a device type, not the wildcard.\<close>

fun op_type :: "registry_op \<Rightarrow> device_type" where
  "op_type (Add ty tg) = ty"
| "op_type (Remove ty tg) = ty"

text \<open>
  A sequence of operations that the registry accepts, given the pairs registered so
  far: every operation names a type that is neither \<^verbatim>\<open>NULL\<close> nor the wildcard, an
  addition a pair that is not registered, a removal one that is.
\<close>

fun accepted :: "env \<Rightarrow> (device_type \<times> string) list \<Rightarrow> registry_op list \<Rightarrow> bool" where
  "accepted E ks [] = True"
| "accepted E ks (Add ty tg # ops) =
     (ty \<noteq> None \<and> ty \<noteq> DEVICE_TYPE_WILDCARD E \<and> (ty, tg) \<notin> set ks
      \<and> accepted E (ks @ [(ty, tg)]) ops)"
| "accepted E ks (Remove ty tg # ops) =
     (ty \<noteq> None \<and> ty \<noteq> DEVICE_TYPE_WILDCARD E \<and> (ty, tg) \<in> set ks
      \<and> accepted E (remove1 (ty, tg) ks) ops)"

text \<open>
  An example: three devices of type 0 with one of type 1 in between; the second
  device, which is neither the first nor the last of the list or of its type, is
  removed again, and one more device of type 0 is added.
\<close>

definition test_ops :: "registry_op list" where
  "test_ops = [Add (Some 0) ''a1'', Add (Some 0) ''a2'', Add (Some 1) ''b1'',
               Add (Some 0) ''a3'', Remove (Some 0) ''a2'', Add (Some 0) ''a4'']"

text \<open>Whether the record at an address is marked as started.\<close>

definition started_at :: "machine_state \<Rightarrow> addr \<Rightarrow> bool" where
  "started_at s a = (case cells s a of None \<Rightarrow> False | Some d \<Rightarrow> started d)"

text \<open>
  A device as \<^verbatim>\<open>device_list_add\<close> and \<^verbatim>\<open>device_list_attach_machine\<close> leave it (not
  started, no token, attached to the machine \<open>m\<close>), of a type that declares a token
  size which is not zero as a \<^verbatim>\<open>UINT32\<close>.
\<close>

definition startable :: "env \<Rightarrow> addr \<Rightarrow> machine_state \<Rightarrow> addr \<Rightarrow> bool" where
  "startable E m s a =
     (case cells s a of
        None \<Rightarrow> False
      | Some d \<Rightarrow>
          \<not> started d \<and> token d = None \<and> machine d = Some m \<and>
          (case type d of
             None \<Rightarrow> False
           | Some f \<Rightarrow> (ucast (DEVINFO_INT_TOKEN_BYTES (type_query E f)) :: 32 word) \<noteq> 0))"

text \<open>
  The record \<open>d\<close> of a device of type \<open>f\<close> after the first loop of
  \<^verbatim>\<open>device_list_start\<close> has given it the token \<open>t\<close>.
\<close>

definition with_token :: "env \<Rightarrow> addr \<Rightarrow> nat \<Rightarrow> addr \<Rightarrow> device_config \<Rightarrow> device_config" where
  "with_token E m f t d =
     d\<lparr> tokenbytes := ucast (DEVINFO_INT_TOKEN_BYTES (type_query E f)),
        token := Some t, machine := Some m,
        region := memory_region E m (tag d),
        regionbytes := memory_region_length E m (tag d) \<rparr>"

text \<open>
  \<open>allocated E m s as s'\<close>: the memory \<open>s'\<close> is \<open>s\<close> after the first loop of
  \<^verbatim>\<open>device_list_start\<close> has run over the devices \<open>as\<close>: the device at position \<open>i\<close>
  has a live token at the \<open>i\<close>-th address handed out by the allocator, nothing else
  has changed.
\<close>

definition allocated :: "env \<Rightarrow> addr \<Rightarrow> machine_state \<Rightarrow> addr list \<Rightarrow> machine_state \<Rightarrow> bool" where
  "allocated E m s as s' =
     (devicelist s' = devicelist s \<and> frees s' = frees s \<and>
      reset_callbacks s' = reset_callbacks s \<and> exit_callbacks s' = exit_callbacks s \<and>
      brk s' = brk s + length as \<and>
      (\<forall>x. x \<notin> set as \<longrightarrow> cells s' x = cells s x) \<and>
      (\<forall>i < length as. \<exists>d f. cells s (as ! i) = Some d \<and> type d = Some f \<and>
          cells s' (as ! i) = Some (with_token E m f (brk s + i) d)) \<and>
      (\<forall>i < length as. blocks s' (brk s + i) \<noteq> None) \<and>
      (\<forall>t. t < brk s \<longrightarrow> blocks s' t = blocks s t))"

text \<open>
  A device whose type has a start function that reports success in no state and for
  no device.
\<close>

definition never_starts :: "env \<Rightarrow> machine_state \<Rightarrow> addr \<Rightarrow> bool" where
  "never_starts E s a =
     (case cells s a of
        None \<Rightarrow> False
      | Some d \<Rightarrow>
          (case type d of
             None \<Rightarrow> False
           | Some f \<Rightarrow>
               (case DEVINFO_FCT_START (type_query E f) of
                  None \<Rightarrow> False
                | Some h \<Rightarrow> \<forall>s' a'. h s' a' \<noteq> DEVICE_START_OK)))"

text \<open>
  Example machines: the registry after the additions of two devices of type 0 with
  the tags \<^verbatim>\<open>"a"\<close> and \<^verbatim>\<open>"b"\<close> (or of the first only), attached to the machine 5.
\<close>

definition two_attached :: "env \<Rightarrow> machine_state" where
  "two_attached E =
     \<lparr> devicelist = Some 0,
       cells = [0 \<mapsto> (new_device E 0 0 ''a'')\<lparr>next := Some 1, typenext := Some 1, machine := Some 5\<rparr>,
                1 \<mapsto> (new_device E 0 1 ''b'')\<lparr>machine := Some 5\<rparr>],
       blocks = Map.empty, brk = 2, reset_callbacks = [], exit_callbacks = [], frees = [] \<rparr>"

definition one_attached :: "env \<Rightarrow> machine_state" where
  "one_attached E =
     \<lparr> devicelist = Some 0,
       cells = [0 \<mapsto> (new_device E 0 0 ''a'')\<lparr>machine := Some 5\<rparr>],
       blocks = Map.empty, brk = 1, reset_callbacks = [], exit_callbacks = [], frees = [] \<rparr>"

text \<open>
  Environments for the examples: in \<open>stuck_env\<close> the start function of every type
  reports a missing dependency; in \<open>zero_env\<close> the types moreover declare a token of
  zero bytes.
\<close>

definition stuck_env :: env where
  "stuck_env = test_env\<lparr> type_query :=
     (\<lambda>f. test_type\<lparr> DEVINFO_FCT_START := Some (\<lambda>s a. DEVICE_START_MISSING_DEPENDENCY) \<rparr>) \<rparr>"

definition zero_env :: env where
  "zero_env = test_env\<lparr> type_query :=
     (\<lambda>f. test_type\<lparr> DEVINFO_INT_TOKEN_BYTES := 0,
                      DEVINFO_FCT_START := Some (\<lambda>s a. DEVICE_START_MISSING_DEPENDENCY) \<rparr>) \<rparr>"

text \<open>The memory \<open>s\<close> with the devices at the addresses \<open>A\<close> marked as started.\<close>

definition mark :: "machine_state \<Rightarrow> addr set \<Rightarrow> machine_state" where
  "mark s A =
     s\<lparr>cells := (\<lambda>x. if x \<in> A then map_option (\<lambda>d. d\<lparr>started := True\<rparr>) (cells s x)
                      else cells s x)\<rparr>"

text \<open>
  \<open>starts_after E s a dep\<close>: the start function of the device at \<open>a\<close> reports success
  exactly in the states in which the device at \<open>dep\<close> is started, and in every state
  when \<open>dep\<close> is \<open>None\<close>.
\<close>

definition starts_after :: "env \<Rightarrow> machine_state \<Rightarrow> addr \<Rightarrow> addr option \<Rightarrow> bool" where
  "starts_after E s a dep =
     (case cells s a of
        None \<Rightarrow> False
      | Some d \<Rightarrow>
          (case type d of
             None \<Rightarrow> False
           | Some f \<Rightarrow>
               (case DEVINFO_FCT_START (type_query E f) of
                  None \<Rightarrow> False
                | Some h \<Rightarrow>
                    \<forall>s'. (h s' a = DEVICE_START_OK) =
                          (case dep of None \<Rightarrow> True | Some b \<Rightarrow> started_at s' b))))"

text \<open>
  One pass over the devices \<open>as\<close>, each paired with the device it waits for, from the
  set \<open>A\<close> of started devices: a device is started when it waits for none or for one
  that is started by then.
\<close>

fun sweep_set :: "(addr \<times> addr option) list \<Rightarrow> addr set \<Rightarrow> addr set" where
  "sweep_set [] A = A"
| "sweep_set ((a, dep) # r) A =
     sweep_set r (if a \<in> A \<or> (case dep of None \<Rightarrow> True | Some b \<Rightarrow> b \<in> A) then insert a A else A)"

text \<open>
  Environments for the examples of a chain of dependencies, where the device at
  address \<open>a\<close> waits for the device at \<open>a - 1\<close> and the one at 0 for none
  (\<open>chain_env\<close>), or for the device at \<open>a + 1\<close> and the one at 1 for none (\<open>rev_env\<close>).
\<close>

definition chain_env :: env where
  "chain_env = test_env\<lparr> type_query :=
     (\<lambda>f. test_type\<lparr> DEVINFO_FCT_START :=
        Some (\<lambda>s a. if a = 0 \<or> started_at s (a - 1) then DEVICE_START_OK
                     else DEVICE_START_MISSING_DEPENDENCY) \<rparr>) \<rparr>"

definition rev_env :: env where
  "rev_env = test_env\<lparr> type_query :=
     (\<lambda>f. test_type\<lparr> DEVINFO_FCT_START :=
        Some (\<lambda>s a. if a = 1 \<or> started_at s (a + 1) then DEVICE_START_OK
                     else DEVICE_START_MISSING_DEPENDENCY) \<rparr>) \<rparr>"

text \<open>
  What the passes of the second phase need of a device and of the device it waits
  for, in the state after the first phase: its start function is as \<open>starts_after\<close>
  says, and both devices are live and not started.
\<close>

definition ready :: "env \<Rightarrow> machine_state \<Rightarrow> addr \<Rightarrow> addr option \<Rightarrow> bool" where
  "ready E s a dep = (starts_after E s a dep \<and> \<not> started_at s a \<and>
     (case dep of None \<Rightarrow> True | Some b \<Rightarrow> cells s b \<noteq> None \<and> \<not> started_at s b))"

text \<open>
  A chain of dependencies along the device list \<open>as\<close>: every device waits for the one
  before it in the list and the first for none (\<open>waits_for_previous\<close>), or every
  device waits for the one after it and the last for none (\<open>waits_for_next\<close>).
\<close>

definition in_deps :: "addr list \<Rightarrow> addr option list" where
  "in_deps as = None # map Some (butlast as)"

definition rev_deps :: "addr list \<Rightarrow> addr option list" where
  "rev_deps as = map Some (tl as) @ [None]"

definition waits_for_previous :: "env \<Rightarrow> machine_state \<Rightarrow> addr list \<Rightarrow> bool" where
  "waits_for_previous E s as = list_all2 (starts_after E s) as (in_deps as)"

definition waits_for_next :: "env \<Rightarrow> machine_state \<Rightarrow> addr list \<Rightarrow> bool" where
  "waits_for_next E s as = list_all2 (starts_after E s) as (rev_deps as)"

text \<open>
  The five assignments at the end of the loop body of \<^verbatim>\<open>device_list_stop\<close>, which
  reset the runtime fields of a record.
\<close>

definition reset_runtime :: "device_config \<Rightarrow> device_config" where
  "reset_runtime d = d\<lparr> token := None, tokenbytes := 0, machine := None,
                         region := None, regionbytes := 0 \<rparr>"

text \<open>
  The states of the runtime fields of the record at an address: as
  \<^verbatim>\<open>device_list_add\<close> leaves them (\<open>added_at\<close>; the token size is not assigned
  there), as the first loop of \<^verbatim>\<open>device_list_start\<close> for the machine \<open>m\<close> leaves them
  (\<open>loaded_at\<close>), and as \<^verbatim>\<open>device_list_stop\<close> leaves them (\<open>stopped_at\<close>).
  \<open>typed_at\<close>: the type of the record is not \<^verbatim>\<open>NULL\<close>.
\<close>

definition added_at :: "machine_state \<Rightarrow> addr \<Rightarrow> bool" where
  "added_at s a =
     (case cells s a of
        None \<Rightarrow> False
      | Some d \<Rightarrow> \<not> started d \<and> token d = None \<and> machine d = None \<and>
                  region d = None \<and> regionbytes d = 0)"

definition loaded_at :: "addr \<Rightarrow> machine_state \<Rightarrow> addr \<Rightarrow> bool" where
  "loaded_at m s a =
     (case cells s a of
        None \<Rightarrow> False
      | Some d \<Rightarrow> token d \<noteq> None \<and> tokenbytes d \<noteq> 0 \<and> machine d = Some m)"

definition stopped_at :: "machine_state \<Rightarrow> addr \<Rightarrow> bool" where
  "stopped_at s a =
     (case cells s a of
        None \<Rightarrow> False
      | Some d \<Rightarrow> token d = None \<and> tokenbytes d = 0 \<and> machine d = None \<and>
                  region d = None \<and> regionbytes d = 0)"

definition typed_at :: "machine_state \<Rightarrow> addr \<Rightarrow> bool" where
  "typed_at s a = (case cells s a of None \<Rightarrow> False | Some d \<Rightarrow> type d \<noteq> None)"

section \<open>Verified properties\<close>

subsection \<open>The tag resolver\<close>

lemma strrchr_absent: "c \<notin> set xs \<Longrightarrow> strrchr xs c = None"
  by (induction xs) auto

lemma strrchr_last: "c \<notin> set post \<Longrightarrow> strrchr (pre @ c # post) c = Some (length pre)"
  by (induction pre) (auto simp: strrchr_absent)

text \<open>
  Claim C8. \<^verbatim>\<open>device_build_tag\<close> yields the tag of the parent device, a colon and
  the given tag when a parent is given, and the given tag alone when the parent is
  \<^verbatim>\<open>NULL\<close>. \<^verbatim>\<open>device_inherit_tag\<close> keeps the source tag up to and including its last
  colon and appends the new tag; without a colon in the source tag the result is the
  new tag. Neither result depends on what the destination held before.
\<close>

theorem tag_resolver:
  "(cells s a = Some d \<longrightarrow> device_build_tag s dest (Some a) tg = Some (tag d @ '':'' @ tg)) \<and>
   device_build_tag s dest None tg = Some tg \<and>
   (CHR '':'' \<notin> set post \<longrightarrow>
      device_inherit_tag dest' (pre @ '':'' @ post) tg = pre @ '':'' @ tg) \<and>
   (CHR '':'' \<notin> set src \<longrightarrow> device_inherit_tag dest' src tg = tg) \<and>
   (cells s a = Some d \<and> tag d = ''sound'' \<longrightarrow>
      device_build_tag s dest (Some a) ''dac'' = Some ''sound:dac'') \<and>
   device_inherit_tag dest' ''sound:fm'' ''dac'' = ''sound:dac'' \<and>
   device_inherit_tag dest' ''dac'' ''pan'' = ''pan''"
proof -
  have build: "cells s a = Some d \<longrightarrow> device_build_tag s dest (Some a) tg = Some (tag d @ '':'' @ tg)" for tg
    by (simp add: device_build_tag_def astring_c_def astring_catc_def astring_cpyc_def)
  have build0: "device_build_tag s dest None tg = Some tg"
    by (simp add: device_build_tag_def astring_c_def astring_cpyc_def)
  have inh: "CHR '':'' \<notin> set post \<longrightarrow>
      device_inherit_tag dest' (pre @ '':'' @ post) tg = pre @ '':'' @ tg" for pre post tg
    using strrchr_last [of "CHR '':''" post pre]
    by (simp add: device_inherit_tag_def astring_c_def astring_catc_def astring_cpych_def)
  have inh0: "CHR '':'' \<notin> set src \<longrightarrow> device_inherit_tag dest' src tg = tg" for src tg
    by (simp add: device_inherit_tag_def strrchr_absent astring_c_def astring_cpyc_def)
  have e1: "cells s a = Some d \<and> tag d = ''sound'' \<longrightarrow>
      device_build_tag s dest (Some a) ''dac'' = Some ''sound:dac''"
    using build [of "''dac''"] by auto
  have e2: "device_inherit_tag dest' ''sound:fm'' ''dac'' = ''sound:dac''"
    using inh [of "''fm''" "''sound''" "''dac''"] by simp
  have e3: "device_inherit_tag dest' ''dac'' ''pan'' = ''pan''"
    using inh0 [of "''dac''" "''pan''"] by simp
  show ?thesis using build build0 inh inh0 e1 e2 e3 by blast
qed

theorem tag_resolver_witness:
  "device_build_tag (empty_registry\<lparr>cells := [0 \<mapsto> new_device test_env 0 0 ''sound'']\<rparr>)
      ''old'' (Some 0) ''dac'' = Some ''sound:dac'' \<and>
   device_inherit_tag ''old'' ''cpu:sub:rom'' ''ram'' = ''cpu:sub:ram'' \<and>
   device_inherit_tag ''old'' ''dac'' ''pan'' = ''pan''"
proof -
  let ?d = "new_device test_env 0 0 ''sound''"
  let ?s = "empty_registry\<lparr>cells := [0 \<mapsto> ?d]\<rparr>"
  have c: "cells ?s 0 = Some ?d" by simp
  have t: "tag ?d = ''sound''" by (simp add: new_device_def Let_def)
  have 1: "device_build_tag ?s ''old'' (Some 0) ''dac'' = Some ''sound:dac''"
    using tag_resolver [where s = ?s and a = 0 and d = ?d and dest = "''old''"] c t
    by blast
  have "CHR '':'' \<notin> set ''rom''" by simp
  then have 2: "device_inherit_tag ''old'' ''cpu:sub:rom'' ''ram'' = ''cpu:sub:ram''"
    using tag_resolver [where dest' = "''old''" and pre = "''cpu:sub''" and post = "''rom''"
        and tg = "''ram''"]
    by simp
  have "CHR '':'' \<notin> set ''dac''" by simp
  then have 3: "device_inherit_tag ''old'' ''dac'' ''pan'' = ''pan''"
    using tag_resolver [where dest' = "''old''" and src = "''dac''" and tg = "''pan''"]
    by blast
  show ?thesis using 1 2 3 by blast
qed

subsection \<open>The pool of temporary strings\<close>

lemma smod_nonneg: "0 \<le> i \<Longrightarrow> i smod 16 = i mod (16::int)"
  by (simp add: smod_int_alt_def sgn_if)

lemma c_string_write: "0 \<notin> set w \<Longrightarrow> c_string (write_string buf w) = w"
  by (auto simp: c_string_def write_string_def takeWhile_tail)

lemma c_string_clear: "buf \<noteq> [] \<Longrightarrow> c_string (buf[0 := 0]) = []"
  by (cases buf) (simp_all add: c_string_def)

lemma length_write_string:
  "length w < length buf \<Longrightarrow> length (write_string buf w) = length buf"
  by (simp add: write_string_def)

lemma slot_of_less: "slot_of i < 16"
  by (simp add: slot_of_def nat_less_iff)

lemma slot_of_distinct:
  assumes "k < n" "n < k + 16"
  shows "slot_of (i + int k) \<noteq> slot_of (i + int n)"
proof
  assume "slot_of (i + int k) = slot_of (i + int n)"
  then have "(i + int k) mod 16 = (i + int n) mod 16"
    by (simp add: slot_of_def)
  then have "(16::int) dvd (i + int n) - (i + int k)"
    by (metis mod_eq_dvd_iff)
  then have "(16::int) dvd int (n - k)" using assms by (simp add: of_nat_diff)
  then have "16 dvd (n - k)" by presburger
  then obtain q where "n - k = 16 * q" ..
  with assms show False by (cases q) auto
qed

lemma get_temp_string_buffer_step:
  assumes "pool_ok p" "0 \<le> temp_string_pool_index p" "temp_string_pool_index p < 2 ^ 31 - 1"
  shows "\<exists>p'. get_temp_string_buffer p = Some (slot_of (temp_string_pool_index p), p') \<and>
              temp_string_pool_index p' = temp_string_pool_index p + 1 \<and>
              c_string (temp_string_pool p' ! slot_of (temp_string_pool_index p)) = [] \<and>
              (\<forall>j. j \<noteq> slot_of (temp_string_pool_index p) \<longrightarrow>
                   temp_string_pool p' ! j = temp_string_pool p ! j) \<and>
              pool_ok p'"
proof -
  let ?i = "temp_string_pool_index p"
  have lt: "slot_of ?i < 16" by (rule slot_of_less)
  have len: "length (temp_string_pool p) = 16" using assms(1) by (simp add: pool_ok_def)
  have blen: "length (temp_string_pool p ! slot_of ?i) = MAX_STRING_LENGTH"
    using assms(1) lt len by (simp add: pool_ok_def)
  then have ne: "temp_string_pool p ! slot_of ?i \<noteq> []" by (auto simp: MAX_STRING_LENGTH_def)
  have sm: "?i smod TEMP_STRING_POOL_ENTRIES = ?i mod 16"
    using assms(2) by (simp add: TEMP_STRING_POOL_ENTRIES_def smod_nonneg)
  have nn: "\<not> ?i mod 16 < 0" by simp
  have ok: "pool_ok (p\<lparr> temp_string_pool_index := ?i + 1,
                   temp_string_pool :=
                     (temp_string_pool p)[slot_of ?i := (temp_string_pool p ! slot_of ?i)[0 := 0]] \<rparr>)"
    using assms(1) blen by (auto simp: pool_ok_def dest!: set_update_subset_insert [THEN subsetD])
  show ?thesis
    using assms(3) lt len c_string_clear [OF ne] nn ok
    by (simp add: get_temp_string_buffer_def Let_def sm slot_of_def [symmetric] del: nn)
qed

lemma acquisitions_append:
  "acquisitions (ws @ vs) p =
     (case acquisitions ws p of
        None \<Rightarrow> None
      | Some (bs, p') \<Rightarrow>
          (case acquisitions vs p' of
             None \<Rightarrow> None
           | Some (cs, p'') \<Rightarrow> Some (bs @ cs, p'')))"
  by (induction ws arbitrary: p) (auto split: option.splits)

lemma acquisitions_run:
  assumes "pool_ok p" "0 \<le> temp_string_pool_index p"
    "temp_string_pool_index p + int (length ws) < 2 ^ 31"
    "length ws \<le> 16" "\<forall>w \<in> set ws. string_ok w"
  shows "\<exists>p'. acquisitions ws p =
           Some (map (\<lambda>k. slot_of (temp_string_pool_index p + int k)) [0..<length ws], p') \<and>
         pool_ok p' \<and>
         temp_string_pool_index p' = temp_string_pool_index p + int (length ws) \<and>
         (\<forall>k < length ws.
            c_string (temp_string_pool p' ! slot_of (temp_string_pool_index p + int k)) = ws ! k)"
  using assms
proof (induction ws rule: rev_induct)
  case Nil
  then show ?case by simp
next
  case (snoc w ws)
  let ?i = "temp_string_pool_index p"
  let ?n = "length ws"
  from snoc obtain p1 where
    run: "acquisitions ws p = Some (map (\<lambda>k. slot_of (?i + int k)) [0..<?n], p1)"
    and ok1: "pool_ok p1" and idx1: "temp_string_pool_index p1 = ?i + int ?n"
    and cont1: "\<forall>k < ?n. c_string (temp_string_pool p1 ! slot_of (?i + int k)) = ws ! k"
    by auto
  have "0 \<le> temp_string_pool_index p1" "temp_string_pool_index p1 < 2 ^ 31 - 1"
    using snoc.prems idx1 by auto
  from get_temp_string_buffer_step [OF ok1 this] idx1 obtain p2 where
    step: "get_temp_string_buffer p1 = Some (slot_of (?i + int ?n), p2)"
    and idx2: "temp_string_pool_index p2 = ?i + int ?n + 1"
    and same: "\<forall>j. j \<noteq> slot_of (?i + int ?n) \<longrightarrow> temp_string_pool p2 ! j = temp_string_pool p1 ! j"
    and ok2: "pool_ok p2"
    by auto
  let ?b = "slot_of (?i + int ?n)"
  let ?p3 = "p2\<lparr>temp_string_pool := (temp_string_pool p2)[?b := write_string (temp_string_pool p2 ! ?b) w]\<rparr>"
  have w: "string_ok w" using snoc.prems by simp
  have len2: "length (temp_string_pool p2) = 16" using ok2 by (simp add: pool_ok_def)
  have blen: "length (temp_string_pool p2 ! ?b) = MAX_STRING_LENGTH"
    using ok2 slot_of_less [of "?i + int ?n"] by (simp add: pool_ok_def)
  have ok3: "pool_ok ?p3"
    using ok2 w blen
    by (auto simp: pool_ok_def string_ok_def length_write_string
             dest!: set_update_subset_insert [THEN subsetD])
  have last: "acquisitions [w] p1 = Some ([?b], ?p3)"
    using step by simp
  have c_new: "c_string (temp_string_pool ?p3 ! ?b) = w"
    using w len2 slot_of_less [of "?i + int ?n"] by (simp add: c_string_write string_ok_def)
  have c_old: "c_string (temp_string_pool ?p3 ! slot_of (?i + int k)) = ws ! k" if "k < ?n" for k
  proof -
    have "slot_of (?i + int k) \<noteq> ?b"
      using slot_of_distinct [of k ?n ?i] that snoc.prems(4) by simp
    then show ?thesis using same cont1 that by simp
  qed
  have "acquisitions (ws @ [w]) p =
          Some (map (\<lambda>k. slot_of (?i + int k)) [0..<length (ws @ [w])], ?p3)"
    by (simp add: acquisitions_append run last del: acquisitions.simps)
  moreover have "temp_string_pool_index ?p3 = ?i + int (length (ws @ [w]))"
    using idx2 by simp
  moreover have "\<forall>k < length (ws @ [w]).
      c_string (temp_string_pool ?p3 ! slot_of (?i + int k)) = (ws @ [w]) ! k"
    using c_new c_old by (auto simp: nth_append less_Suc_eq)
  ultimately show ?case using ok3 by blast
qed


text \<open>
  Claim C9. From a state of the pool with a non-negative index, a call of
  \<^verbatim>\<open>get_temp_string_buffer\<close> returns buffer \<open>index mod 16\<close>, cleared to the empty
  string, and advances the index. In 17 calls in a row, each followed by the caller
  writing its string, the buffers come in round-robin order: the first and the
  seventeenth call return the same buffer, which at the end holds the seventeenth
  string, and the second to seventeenth call return 16 pairwise distinct buffers, each
  still holding the string written after its call.
\<close>

theorem scratch_pool_round_robin:
  assumes "pool_ok p" "0 \<le> temp_string_pool_index p" "temp_string_pool_index p + 17 < 2 ^ 31"
    "length ws = 17" "\<forall>w \<in> set ws. string_ok w"
  shows "(\<exists>q. get_temp_string_buffer p = Some (nat (temp_string_pool_index p mod 16), q) \<and>
              temp_string_pool_index q = temp_string_pool_index p + 1 \<and>
              c_string (temp_string_pool q ! nat (temp_string_pool_index p mod 16)) = []) \<and>
         (\<exists>bs p'. acquisitions ws p = Some (bs, p') \<and>
              bs = map (\<lambda>k. nat ((temp_string_pool_index p + int k) mod 16)) [0..<17] \<and>
              bs ! 0 = bs ! 16 \<and> distinct (tl bs) \<and>
              c_string (temp_string_pool p' ! (bs ! 0)) = ws ! 16 \<and>
              (\<forall>k \<in> {1..16}. c_string (temp_string_pool p' ! (bs ! k)) = ws ! k))"
proof -
  let ?i = "temp_string_pool_index p"
  obtain w ws' where ws: "ws = w # ws'" and len': "length ws' = 16"
    using assms(4) by (cases ws) auto
  have "?i < 2 ^ 31 - 1" using assms(3) by simp
  from get_temp_string_buffer_step [OF assms(1,2) this] obtain p1 where
    step: "get_temp_string_buffer p = Some (slot_of ?i, p1)"
    and idx1: "temp_string_pool_index p1 = ?i + 1"
    and clr: "c_string (temp_string_pool p1 ! slot_of ?i) = []"
    and ok1: "pool_ok p1"
    by auto
  have first: "\<exists>q. get_temp_string_buffer p = Some (nat (?i mod 16), q) \<and>
              temp_string_pool_index q = ?i + 1 \<and>
              c_string (temp_string_pool q ! nat (?i mod 16)) = []"
    using step idx1 clr by (auto simp: slot_of_def)
  let ?b = "slot_of ?i"
  let ?p2 = "p1\<lparr>temp_string_pool := (temp_string_pool p1)[?b := write_string (temp_string_pool p1 ! ?b) w]\<rparr>"
  have w: "string_ok w" and ws': "\<forall>w \<in> set ws'. string_ok w" using assms(5) ws by auto
  have blen: "length (temp_string_pool p1 ! ?b) = MAX_STRING_LENGTH"
    using ok1 slot_of_less [of ?i] by (simp add: pool_ok_def)
  have ok2: "pool_ok ?p2"
    using ok1 w blen
    by (auto simp: pool_ok_def string_ok_def length_write_string
             dest!: set_update_subset_insert [THEN subsetD])
  have idx2: "temp_string_pool_index ?p2 = ?i + 1" using idx1 by simp
  have "0 \<le> temp_string_pool_index ?p2"
    "temp_string_pool_index ?p2 + int (length ws') < 2 ^ 31" "length ws' \<le> 16"
    using assms(2,3) idx2 len' by auto
  from acquisitions_run [OF ok2 this ws'] idx2 len' obtain p' where
    run: "acquisitions ws' ?p2 = Some (map (\<lambda>k. slot_of (?i + 1 + int k)) [0..<16], p')"
    and cont: "\<forall>k < 16. c_string (temp_string_pool p' ! slot_of (?i + 1 + int k)) = ws' ! k"
    by auto
  let ?bs = "?b # map (\<lambda>k. slot_of (?i + 1 + int k)) [0..<16]"
  have acq: "acquisitions ws p = Some (?bs, p')"
    using step run by (simp add: ws)
  have rr: "?bs = map (\<lambda>k. nat ((?i + int k) mod 16)) [0..<17]"
  proof -
    have "[0..<17] = 0 # map Suc [0..<16]"
      by (simp add: upt_conv_Cons map_Suc_upt del: upt_Suc)
    then show ?thesis by (simp add: slot_of_def ac_simps)
  qed
  have wrap: "slot_of (?i + 1 + 15) = slot_of ?i"
    by (simp add: slot_of_def add.assoc)
  have b16: "?bs ! 16 = slot_of ?i"
    using wrap by (simp add: nth_Cons')
  have eq: "?bs ! 0 = ?bs ! 16" using b16 by simp
  have dist: "distinct (tl ?bs)"
  proof -
    have "inj_on (\<lambda>k. slot_of (?i + 1 + int k)) {0..<16}"
    proof (rule linorder_inj_onI)
      fix x y :: nat
      assume "x < y" "x \<in> {0..<16}" "y \<in> {0..<16}"
      then show "slot_of (?i + 1 + int x) \<noteq> slot_of (?i + 1 + int y)"
        using slot_of_distinct [of x y "?i + 1"] by simp
    qed auto
    then show ?thesis by (simp add: distinct_map)
  qed
  have later: "\<forall>k \<in> {1..16}. c_string (temp_string_pool p' ! (?bs ! k)) = ws ! k"
  proof
    fix k :: nat
    assume "k \<in> {1..16}"
    then obtain j where k: "k = Suc j" and j: "j < 16" by (cases k) auto
    then show "c_string (temp_string_pool p' ! (?bs ! k)) = ws ! k"
      using cont by (simp add: ws)
  qed
  have over: "c_string (temp_string_pool p' ! (?bs ! 0)) = ws ! 16"
  proof -
    have "c_string (temp_string_pool p' ! (?bs ! 16)) = ws ! 16"
      using later by (rule bspec) simp
    then show ?thesis by (simp only: eq)
  qed
  have all: "\<exists>bs p'. acquisitions ws p = Some (bs, p') \<and>
              bs = map (\<lambda>k. nat ((?i + int k) mod 16)) [0..<17] \<and>
              bs ! 0 = bs ! 16 \<and> distinct (tl bs) \<and>
              c_string (temp_string_pool p' ! (bs ! 0)) = ws ! 16 \<and>
              (\<forall>k \<in> {1..16}. c_string (temp_string_pool p' ! (bs ! k)) = ws ! k)"
    by (intro exI [of _ ?bs] exI [of _ p'] conjI) (rule acq rr eq dist over later)+
  show ?thesis using first all by (rule conjI)
qed

theorem scratch_pool_round_robin_witness:
  "pool_ok initial_pool \<and> list_all string_ok test_strings \<and>
   (\<exists>bs p'. acquisitions test_strings initial_pool = Some (bs, p') \<and>
      bs = [0, 1, 2, 3, 4, 5, 6, 7, 8, 9, 10, 11, 12, 13, 14, 15, 0] \<and>
      c_string (temp_string_pool p' ! (bs ! 0)) = [81] \<and>
      c_string (temp_string_pool p' ! (bs ! 1)) = [66])"
proof -
  have ok: "pool_ok initial_pool"
    by (simp add: pool_ok_def initial_pool_def)
  have idx: "temp_string_pool_index initial_pool = 0"
    by (simp add: initial_pool_def)
  have ts: "test_strings = [[65], [66], [67], [68], [69], [70], [71], [72], [73], [74], [75],
      [76], [77], [78], [79], [80], [81]]"
    by (simp add: test_strings_def upt_conv_Cons del: upt_Suc)
  have sok: "\<forall>w \<in> set test_strings. string_ok w"
    by (simp add: ts string_ok_def MAX_STRING_LENGTH_def)
  have len: "length test_strings = 17" by (simp add: test_strings_def)
  have up: "map (\<lambda>k. nat (int k mod 16)) [0..<17] =
      [0, 1, 2, 3, 4, 5, 6, 7, 8, 9, 10, 11, 12, 13, 14, 15, 0]"
    by (simp add: upt_conv_Cons del: upt_Suc)
  have "\<exists>bs p'. acquisitions test_strings initial_pool = Some (bs, p') \<and>
      bs = map (\<lambda>k. nat (int k mod 16)) [0..<17] \<and>
      c_string (temp_string_pool p' ! (bs ! 0)) = test_strings ! 16 \<and>
      (\<forall>k \<in> {1..16}. c_string (temp_string_pool p' ! (bs ! k)) = test_strings ! k)"
    using scratch_pool_round_robin [OF ok _ _ len sok] by (simp add: idx) blast
  then obtain bs p' where acq: "acquisitions test_strings initial_pool = Some (bs, p')"
    and bs: "bs = [0, 1, 2, 3, 4, 5, 6, 7, 8, 9, 10, 11, 12, 13, 14, 15, 0]"
    and c0: "c_string (temp_string_pool p' ! (bs ! 0)) = test_strings ! 16"
    and ck: "\<forall>k \<in> {1..16}. c_string (temp_string_pool p' ! (bs ! k)) = test_strings ! k"
    unfolding up by blast
  have "c_string (temp_string_pool p' ! (bs ! 1)) = test_strings ! 1"
    using ck by simp
  then have c1: "c_string (temp_string_pool p' ! (bs ! 1)) = [66]" by (simp add: ts)
  have c16: "c_string (temp_string_pool p' ! (bs ! 0)) = [81]" using c0 by (simp add: ts)
  have "list_all string_ok test_strings" using sok by (simp add: list_all_iff)
  then show ?thesis using ok acq bs c1 c16 by blast
qed

subsection \<open>Chains in the store\<close>

lemma chain_None [simp]: "chain h None as = (as = [])"
  by (cases as) auto

lemma chain_Cons [simp]:
  "chain h p (a # as) = (p = Some a \<and> (\<exists>d. h a = Some d \<and> chain h (next d) as))"
  by (simp split: option.splits)

declare chain.simps(2) [simp del]

lemma path_Cons [simp]:
  "path h p (a # as) q = (p = Some a \<and> (\<exists>d. h a = Some d \<and> path h (next d) as q))"
  by (simp split: option.splits)

declare path.simps(2) [simp del]

lemma tchain_None [simp]: "tchain h None as = (as = [])"
  by (cases as) auto

lemma tchain_Cons [simp]:
  "tchain h p (a # as) = (p = Some a \<and> (\<exists>d. h a = Some d \<and> tchain h (typenext d) as))"
  by (simp split: option.splits)

declare tchain.simps(2) [simp del]

lemma chain_unique: "chain h p as \<Longrightarrow> chain h p bs \<Longrightarrow> as = bs"
proof (induction as arbitrary: p bs)
  case Nil
  then show ?case by simp
next
  case (Cons a as)
  then show ?case by (cases bs) auto
qed

lemma chain_suffix: "chain h p (as @ b # bs) \<Longrightarrow> chain h (Some b) (b # bs)"
  by (induction as arbitrary: p) auto

lemma chain_head_notin:
  assumes "chain h p (a # as)"
  shows "a \<notin> set as"
proof
  assume "a \<in> set as"
  then obtain xs ys where as: "as = xs @ a # ys" by (auto simp: in_set_conv_decomp)
  from assms have p: "p = Some a" by simp
  have "chain h p ((a # xs) @ a # ys)" using assms as by simp
  then have "chain h (Some a) (a # ys)" by (rule chain_suffix)
  with assms p have "a # as = a # ys" using chain_unique by blast
  with as show False by simp
qed

lemma chain_distinct: "chain h p as \<Longrightarrow> distinct as"
proof (induction as arbitrary: p)
  case Nil
  then show ?case by simp
next
  case (Cons a as)
  from Cons.prems obtain d where "h a = Some d" "chain h (next d) as" by auto
  then have "distinct as" using Cons.IH by blast
  with chain_head_notin [OF Cons.prems] show ?case by simp
qed

lemma chain_live: "chain h p as \<Longrightarrow> a \<in> set as \<Longrightarrow> \<exists>d. h a = Some d"
  by (induction as arbitrary: p) auto

lemma chain_cong:
  "\<forall>a \<in> set as. map_option next (h' a) = map_option next (h a) \<Longrightarrow>
   chain h' p as = chain h p as"
proof (induction as arbitrary: p)
  case Nil
  then show ?case by simp
next
  case (Cons a as)
  then have "map_option next (h' a) = map_option next (h a)" by simp
  then show ?case using Cons by (cases "h a"; cases "h' a") auto
qed

lemma chain_path: "chain h p as = path h p as None"
  by (induction as arbitrary: p) auto

lemma path_append:
  "path h p (as @ bs) q = (\<exists>r. path h p as r \<and> path h r bs q)"
  by (induction as arbitrary: p) auto

lemma path_cong:
  "\<forall>a \<in> set as. map_option next (h' a) = map_option next (h a) \<Longrightarrow>
   path h' p as q = path h p as q"
proof (induction as arbitrary: p)
  case Nil
  then show ?case by simp
next
  case (Cons a as)
  then have "map_option next (h' a) = map_option next (h a)" by simp
  then show ?case using Cons by (cases "h a"; cases "h' a") auto
qed

lemma tchain_cong:
  "\<forall>a \<in> set as. map_option typenext (h' a) = map_option typenext (h a) \<Longrightarrow>
   tchain h' p as = tchain h p as"
proof (induction as arbitrary: p)
  case Nil
  then show ?case by simp
next
  case (Cons a as)
  then have "map_option typenext (h' a) = map_option typenext (h a)" by simp
  then show ?case using Cons by (cases "h a"; cases "h' a") auto
qed

lemma of_type_append: "of_type h ty (xs @ ys) = of_type h ty xs @ of_type h ty ys"
  by (simp add: of_type_def)

lemma of_type_Cons:
  "of_type h ty (a # as) =
     (if map_option type (h a) = Some ty then a # of_type h ty as else of_type h ty as)"
  by (simp add: of_type_def)

lemma of_type_Nil [simp]: "of_type h ty [] = []"
  by (simp add: of_type_def)

lemma first_of_simps [simp]: "first_of [] = None" "first_of (x # xs) = Some x"
  by (simp_all add: first_of_def)

lemma first_of_append: "first_of (xs @ ys) = (if xs = [] then first_of ys else first_of xs)"
  by (cases xs) simp_all

lemma typenext_ok_Cons [simp]:
  "typenext_ok h (a # as) =
     (\<exists>d. h a = Some d \<and> typenext d = first_of (of_type h (type d) as) \<and> typenext_ok h as)"
  by (simp split: option.splits)

declare typenext_ok.simps(2) [simp del]

lemma typenext_ok_append: "typenext_ok h (xs @ ys) \<Longrightarrow> typenext_ok h ys"
  by (induction xs) auto

subsection \<open>The loops of the registry on a chain\<close>

lemma find_filter_first: "find P xs = first_of (filter P xs)"
  by (induction xs) (auto simp: first_of_def)

lemma device_list_first_chain:
  "chain (cells s) p as \<Longrightarrow> device_list_first E s p ty = Some (find (matches_at E s ty) as)"
proof (induction as arbitrary: p)
  case Nil
  then show ?case by (subst device_list_first.simps) simp
next
  case (Cons a as)
  from Cons.prems obtain d where d: "p = Some a" "cells s a = Some d"
    "chain (cells s) (next d) as" by auto
  have m: "matches_at E s ty a = device_matches_type E d ty"
    using d by (simp add: matches_at_def)
  have "device_list_first E s p ty =
      (if device_matches_type E d ty then Some (Some a) else device_list_first E s (next d) ty)"
    using d by (subst device_list_first.simps) simp
  then show ?case using Cons.IH [OF d(3)] m by simp
qed

lemma device_list_find_by_tag_chain:
  "chain (cells s) p as \<Longrightarrow>
   device_list_find_by_tag E s p ty tg = Some (find (tagged_at E s ty tg) as)"
proof (induction as arbitrary: p)
  case Nil
  then show ?case by (subst device_list_find_by_tag.simps) simp
next
  case (Cons a as)
  from Cons.prems obtain d where d: "p = Some a" "cells s a = Some d"
    "chain (cells s) (next d) as" by auto
  have m: "tagged_at E s ty tg a = (device_matches_type E d ty \<and> tg = tag d)"
    using d by (simp add: tagged_at_def)
  have "device_list_find_by_tag E s p ty tg =
      (if device_matches_type E d ty \<and> tg = tag d then Some (Some a)
       else device_list_find_by_tag E s (next d) ty tg)"
    using d by (subst device_list_find_by_tag.simps) simp
  then show ?case using Cons.IH [OF d(3)] m by simp
qed

lemma tagged_matches: "tagged_at E s ty tg a \<Longrightarrow> matches_at E s ty a"
  by (auto simp: tagged_at_def matches_at_def split: option.splits)

lemma index_loop_chain:
  "chain (cells s) p as \<Longrightarrow>
   index_loop E s p ty tg i =
     Some (if \<exists>a \<in> set as. tagged_at E s ty tg a
           then i + int (length (filter (matches_at E s ty)
                                    (takeWhile (\<lambda>a. \<not> tagged_at E s ty tg a) as)))
           else - 1)"
proof (induction as arbitrary: p i)
  case Nil
  then show ?case by (subst index_loop.simps) simp
next
  case (Cons a as)
  from Cons.prems obtain d where d: "p = Some a" "cells s a = Some d"
    "chain (cells s) (next d) as" by auto
  show ?case
  proof (cases "tagged_at E s ty tg a")
    case True
    then show ?thesis using d
      by (subst index_loop.simps) (auto simp: tagged_at_def)
  next
    case False
    show ?thesis
    proof (cases "matches_at E s ty a")
      case True
      with False d have "index_loop E s p ty tg i = index_loop E s (next d) ty tg (i + 1)"
        by (subst index_loop.simps) (auto simp: tagged_at_def matches_at_def)
      then show ?thesis using Cons.IH [OF d(3)] False True by simp
    next
      case m: False
      with False d have "index_loop E s p ty tg i = index_loop E s (next d) ty tg i"
        by (subst index_loop.simps) (auto simp: tagged_at_def matches_at_def)
      then show ?thesis using Cons.IH [OF d(3)] False m by simp
    qed
  qed
qed

lemma find_by_index_loop_chain:
  "chain (cells s) p as \<Longrightarrow> 0 \<le> i \<Longrightarrow>
   find_by_index_loop E s p ty i =
     Some (if nat i < length (filter (matches_at E s ty) as)
           then Some (filter (matches_at E s ty) as ! nat i) else None)"
proof (induction as arbitrary: p i)
  case Nil
  then show ?case by (subst find_by_index_loop.simps) simp
next
  case (Cons a as)
  from Cons.prems obtain d where d: "p = Some a" "cells s a = Some d"
    "chain (cells s) (next d) as" by auto
  show ?case
  proof (cases "matches_at E s ty a")
    case True
    show ?thesis
    proof (cases "i = 0")
      case True
      with \<open>matches_at E s ty a\<close> d show ?thesis
        by (subst find_by_index_loop.simps) (auto simp: matches_at_def)
    next
      case False
      with True d have "find_by_index_loop E s p ty i = find_by_index_loop E s (next d) ty (i - 1)"
        by (subst find_by_index_loop.simps) (auto simp: matches_at_def)
      moreover have "0 \<le> i - 1" "nat i = Suc (nat (i - 1))" using False Cons.prems(2) by auto
      ultimately show ?thesis using Cons.IH [OF d(3), of "i - 1"] True by simp
    qed
  next
    case False
    with d have "find_by_index_loop E s p ty i = find_by_index_loop E s (next d) ty i"
      by (subst find_by_index_loop.simps) (auto simp: matches_at_def)
    then show ?thesis using Cons.IH [OF d(3) Cons.prems(2)] False by simp
  qed
qed

lemma add_scan_chain:
  "chain (cells s) p as \<Longrightarrow>
   add_scan s ty tg l p =
     Some (if \<exists>a \<in> set as. key_of s a = Some (ty, tg) then Inl (Duplicate_device ty tg)
           else Inr (if as = [] then l else Next_of (last as)))"
proof (induction as arbitrary: p l)
  case Nil
  then show ?case by (subst add_scan.simps) simp
next
  case (Cons a as)
  from Cons.prems obtain d where d: "p = Some a" "cells s a = Some d"
    "chain (cells s) (next d) as" by auto
  show ?case
  proof (cases "key_of s a = Some (ty, tg)")
    case True
    then show ?thesis using d by (subst add_scan.simps) (auto simp: key_of_def)
  next
    case False
    with d have "add_scan s ty tg l p = add_scan s ty tg (Next_of a) (next d)"
      by (subst add_scan.simps) (auto simp: key_of_def)
    then show ?thesis using Cons.IH [OF d(3), of "Next_of a"] False by auto
  qed
qed

lemma remove_scan_chain:
  "chain (cells s) p as \<Longrightarrow>
   remove_scan s ty tg l p =
     Some (let xs = takeWhile (\<lambda>a. key_of s a \<noteq> Some (ty, tg)) as
           in (if xs = [] then l else Next_of (last xs),
               find (\<lambda>a. key_of s a = Some (ty, tg)) as))"
proof (induction as arbitrary: p l)
  case Nil
  then show ?case by (subst remove_scan.simps) simp
next
  case (Cons a as)
  from Cons.prems obtain d where d: "p = Some a" "cells s a = Some d"
    "chain (cells s) (next d) as" by auto
  show ?case
  proof (cases "key_of s a = Some (ty, tg)")
    case True
    then show ?thesis using d by (subst remove_scan.simps) (auto simp: key_of_def)
  next
    case False
    with d have "remove_scan s ty tg l p = remove_scan s ty tg (Next_of a) (next d)"
      by (subst remove_scan.simps) (auto simp: key_of_def)
    then show ?thesis using Cons.IH [OF d(3), of "Next_of a"] False by (auto simp: Let_def)
  qed
qed

lemma type_end_tchain:
  "tchain (cells s) p bs \<Longrightarrow>
   type_end s l p = Some (if bs = [] then l else Typenext_of (last bs))"
proof (induction bs arbitrary: p l)
  case Nil
  then show ?case by (subst type_end.simps) simp
next
  case (Cons b bs)
  then show ?case by (subst type_end.simps) auto
qed

lemma type_find_tchain:
  "tchain (cells s) p bs \<Longrightarrow> dev \<in> set bs \<Longrightarrow>
   type_find s dev l p =
     Some (let xs = takeWhile (\<lambda>b. b \<noteq> dev) bs in if xs = [] then l else Typenext_of (last xs))"
proof (induction bs arbitrary: p l)
  case Nil
  then show ?case by simp
next
  case (Cons b bs)
  from Cons.prems obtain d where d: "p = Some b" "cells s b = Some d"
    "tchain (cells s) (typenext d) bs" by auto
  show ?case
  proof (cases "b = dev")
    case True
    then show ?thesis using d by (subst type_find.simps) simp
  next
    case False
    with d have "type_find s dev l p = type_find s dev (Typenext_of b) (typenext d)"
      by (subst type_find.simps) auto
    moreover have "dev \<in> set bs" using False Cons.prems(2) by auto
    ultimately show ?thesis using Cons.IH [OF d(3), of "Typenext_of b"] False
      by (auto simp: Let_def)
  qed
qed

lemma visit_from_wildcard:
  "chain (cells s) p as \<Longrightarrow> ty = DEVICE_TYPE_WILDCARD E \<Longrightarrow> visit_from E s ty p = Some as"
proof (induction as arbitrary: p)
  case Nil
  then show ?case by (subst visit_from.simps) simp
next
  case (Cons a as)
  then show ?case
    by (subst visit_from.simps) (auto simp: device_list_next_def assert_fails_def)
qed

lemma visit_from_type:
  "tchain (cells s) p bs \<Longrightarrow> ty \<noteq> DEVICE_TYPE_WILDCARD E \<Longrightarrow> visit_from E s ty p = Some bs"
proof (induction bs arbitrary: p)
  case Nil
  then show ?case by (subst visit_from.simps) simp
next
  case (Cons a as)
  then show ?case
    by (subst visit_from.simps) (auto simp: device_list_next_def assert_fails_def)
qed

lemma typenext_ok_tchain:
  "typenext_ok h as \<Longrightarrow> tchain h (first_of (of_type h ty as)) (of_type h ty as)"
proof (induction as)
  case Nil
  then show ?case by (simp add: of_type_def first_of_def)
next
  case (Cons a as)
  then obtain d where d: "h a = Some d" "typenext d = first_of (of_type h (type d) as)"
    "typenext_ok h as" by (auto split: option.splits)
  show ?case
  proof (cases "type d = ty")
    case True
    then have "of_type h ty (a # as) = a # of_type h ty as" using d by (simp add: of_type_def)
    then show ?thesis using d True Cons.IH by (simp add: first_of_def)
  next
    case False
    then have "of_type h ty (a # as) = of_type h ty as" using d by (simp add: of_type_def)
    then show ?thesis using d Cons.IH by simp
  qed
qed

subsection \<open>Adding a device\<close>

lemma registry_chain: "registry s as \<Longrightarrow> chain (cells s) (devicelist s) as"
  by (simp add: registry_def)

lemma registry_below: "registry s as \<Longrightarrow> a \<in> set as \<Longrightarrow> a < brk s"
  by (auto simp: registry_def list_all_iff)

lemma registry_fresh: "registry s as \<Longrightarrow> brk s \<notin> set as"
  using registry_below by blast

lemma of_type_subset: "set (of_type h ty as) \<subseteq> set as"
  by (auto simp: of_type_def)

lemma last_of_type_in: "of_type h ty as \<noteq> [] \<Longrightarrow> last (of_type h ty as) \<in> set as"
  using of_type_subset last_in_set by blast

lemma of_type_cong:
  "\<forall>a \<in> set as. map_option type (h' a) = map_option type (h a) \<Longrightarrow>
   of_type h' ty as = of_type h ty as"
  by (simp add: of_type_def cong: filter_cong)

lemma typenext_ok_cong:
  "\<forall>a \<in> set as. map_option type (h' a) = map_option type (h a) \<and>
      map_option typenext (h' a) = map_option typenext (h a) \<Longrightarrow>
   typenext_ok h' as = typenext_ok h as"
proof (induction as)
  case Nil
  then show ?case by simp
next
  case (Cons a as)
  then have a: "map_option type (h' a) = map_option type (h a)"
    "map_option typenext (h' a) = map_option typenext (h a)" by auto
  have o: "of_type h' ty as = of_type h ty as" for ty
    using Cons.prems by (intro of_type_cong) simp
  have "typenext_ok h' as = typenext_ok h as" using Cons by simp
  then show ?case using a o by (cases "h a"; cases "h' a") auto
qed

lemma matches_at_type:
  "ty \<noteq> DEVICE_TYPE_WILDCARD E \<Longrightarrow>
   matches_at E s ty a = (map_option type (cells s a) = Some ty)"
  by (auto simp: matches_at_def device_matches_type_def split: option.splits)

lemma filter_matches_of_type:
  "ty \<noteq> DEVICE_TYPE_WILDCARD E \<Longrightarrow> filter (matches_at E s ty) as = of_type (cells s) ty as"
  by (simp add: of_type_def matches_at_type cong: filter_cong)

lemma device_list_first_of_type:
  assumes "chain (cells s) p as" "ty \<noteq> DEVICE_TYPE_WILDCARD E"
  shows "device_list_first E s p ty = Some (first_of (of_type (cells s) ty as))"
  using device_list_first_chain [OF assms(1)] assms(2)
  by (simp add: find_filter_first filter_matches_of_type)

lemma linked_fields [simp]:
  "brk (linked E s as f tg) = Suc (brk s)"
  "devicelist (linked E s as f tg) = (if as = [] then Some (brk s) else devicelist s)"
  "blocks (linked E s as f tg) = blocks s"
  "reset_callbacks (linked E s as f tg) = reset_callbacks s"
  "exit_callbacks (linked E s as f tg) = exit_callbacks s"
  "frees (linked E s as f tg) = frees s"
  "machine_state.more (linked E s as f tg) = machine_state.more s"
  by (simp_all add: linked_def)

lemma cells_linked:
  "cells (linked E s as f tg) x =
     (if x = brk s then Some (new_device E f (brk s) tg)
      else map_option
             (\<lambda>d. d\<lparr> typenext :=
                        (if of_type (cells s) (Some f) as \<noteq> []
                            \<and> x = last (of_type (cells s) (Some f) as)
                         then Some (brk s) else typenext d),
                      next := (if as \<noteq> [] \<and> x = last as then Some (brk s) else next d) \<rparr>)
             (cells s x))"
  by (simp add: linked_def)

lemma device_list_add_linked:
  assumes reg: "registry s as"
    and wc: "Some f \<noteq> DEVICE_TYPE_WILDCARD E"
    and fresh: "\<forall>a \<in> set as. key_of s a \<noteq> Some (Some f, tg)"
  shows "device_list_add E s (Some f) tg = Some (Inr (brk s), linked E s as f tg)"
proof -
  let ?n = "brk s"
  let ?nd = "new_device E f ?n tg"
  let ?s2 = "s\<lparr>brk := Suc ?n, cells := (cells s)(?n \<mapsto> ?nd)\<rparr>"
  let ?bs = "of_type (cells s) (Some f) as"
  let ?L = "linked E s as f tg"
  have ch: "chain (cells s) (devicelist s) as" using reg by (rule registry_chain)
  have nin: "?n \<notin> set as" using reg by (rule registry_fresh)
  have scan: "add_scan s (Some f) tg Listhead (devicelist s) =
      Some (Inr (if as = [] then Listhead else Next_of (last as)))"
    using add_scan_chain [OF ch] fresh by simp
  have ch2: "chain (cells ?s2) (devicelist ?s2) as"
    using ch nin by (simp add: chain_cong [of as "(cells s)(?n \<mapsto> ?nd)" "cells s"])
  have tn: "typenext_ok (cells s) as" using reg by (simp add: registry_def)
  have tn2: "typenext_ok (cells ?s2) as"
    using tn nin by (simp add: typenext_ok_cong [of as "(cells s)(?n \<mapsto> ?nd)" "cells s"])
  have bs2: "of_type (cells ?s2) (Some f) as = ?bs"
    using nin by (simp add: of_type_cong [of as "(cells s)(?n \<mapsto> ?nd)" "cells s"])
  have first: "device_list_first E ?s2 (devicelist ?s2) (Some f) = Some (first_of ?bs)"
    using device_list_first_of_type [OF ch2 wc] bs2 by simp
  have tc: "tchain (cells ?s2) (first_of ?bs) ?bs"
    using typenext_ok_tchain [OF tn2, of "Some f"] bs2 by simp
  have te: "type_end ?s2 Typedevice (first_of ?bs) =
      Some (if ?bs = [] then Typedevice else Typenext_of (last ?bs))"
    using type_end_tchain [OF tc] .
  show ?thesis
  proof (cases "as = []")
    case True
    then have bnil: "?bs = []" by (simp add: of_type_def)
    have c: "cells ?L = (cells s)(?n \<mapsto> ?nd)"
      by (rule ext) (simp add: cells_linked True of_type_def option.map_ident)
    have eq: "?L = ?s2\<lparr>devicelist := Some ?n\<rparr>"
      by (rule machine_state.equality) (simp_all add: c, simp add: True)
    have scan': "add_scan s (Some f) tg Listhead (devicelist s) = Some (Inr Listhead)"
      using scan True by simp
    have te': "type_end ?s2 Typedevice None = Some Typedevice"
      using te bnil by (simp add: first_of_def)
    have first': "device_list_first E ?s2 (devicelist s) (Some f) = Some None"
      using first bnil by (simp add: first_of_def)
    show ?thesis
      unfolding eq using scan' first' te'
      by (simp add: device_list_add_def assert_fails_def malloc_or_die_def
          store_typelink_def store_devlink_def)
  next
    case False
    obtain l where l: "last as = l" by simp
    have lin: "l \<in> set as" using False l by auto
    then obtain dl where dl: "cells s l = Some dl" using chain_live [OF ch] by blast
    have lne: "l \<noteq> ?n" using lin nin by auto
    have scan': "add_scan s (Some f) tg Listhead (devicelist s) = Some (Inr (Next_of l))"
      using scan False l by simp
    show ?thesis
    proof (cases "?bs = []")
      case True
      have c: "cells ?L = (cells s)(?n \<mapsto> ?nd, l \<mapsto> dl\<lparr>next := Some ?n\<rparr>)"
        by (rule ext) (simp add: cells_linked True False l dl lne option.map_ident)
      have eq: "?L = s\<lparr>brk := Suc ?n, cells := (cells s)(?n \<mapsto> ?nd, l \<mapsto> dl\<lparr>next := Some ?n\<rparr>)\<rparr>"
        by (rule machine_state.equality) (simp_all add: c False)
      have te': "type_end ?s2 Typedevice None = Some Typedevice"
        using te True by (simp add: first_of_def)
      have first': "device_list_first E ?s2 (devicelist s) (Some f) = Some None"
        using first True by (simp add: first_of_def)
      show ?thesis
        unfolding eq
        using scan' first' te' dl lne
        by (simp add: device_list_add_def assert_fails_def malloc_or_die_def
            store_typelink_def store_devlink_def)
    next
      case bne: False
      obtain lb where lb: "last ?bs = lb" by simp
      have "lb \<in> set as" using last_of_type_in [OF bne] lb by simp
      then obtain db where db: "cells s lb = Some db" and lbne: "lb \<noteq> ?n"
        using chain_live [OF ch] nin by blast
      obtain b bs' where bs: "?bs = b # bs'" using bne by (cases ?bs) auto
      have te': "type_end ?s2 Typedevice (Some b) = Some (Typenext_of lb)"
        using te lb by (simp add: first_of_def bs)
      have first': "device_list_first E ?s2 (devicelist s) (Some f) = Some (Some b)"
        using first by (simp add: first_of_def bs)
      show ?thesis
      proof (cases "l = lb")
        case True
        have dbl: "cells s l = Some db" using db True by simp
        have c: "cells ?L = (cells s)(?n \<mapsto> ?nd,
                 l \<mapsto> db\<lparr>typenext := Some ?n, next := Some ?n\<rparr>)"
          by (rule ext) (simp add: cells_linked bne False l lb True [symmetric] dbl lne option.map_ident)
        have eq: "?L = s\<lparr>brk := Suc ?n,
              cells := (cells s)(?n \<mapsto> ?nd,
                 l \<mapsto> db\<lparr>typenext := Some ?n, next := Some ?n\<rparr>)\<rparr>"
          by (rule machine_state.equality) (simp_all add: c False)
        have te'': "type_end ?s2 Typedevice (Some b) = Some (Typenext_of l)"
          using te' True by simp
        show ?thesis
          unfolding eq
          using scan' first' te'' dbl lne
          by (simp add: device_list_add_def assert_fails_def malloc_or_die_def
              store_typelink_def store_devlink_def)
      next
        case ne: False
        have c: "cells ?L = (cells s)(?n \<mapsto> ?nd,
                 lb \<mapsto> db\<lparr>typenext := Some ?n\<rparr>,
                 l \<mapsto> dl\<lparr>next := Some ?n\<rparr>)"
          by (rule ext) (simp add: cells_linked bne False l lb dl db lne lbne ne option.map_ident)
        have eq: "?L = s\<lparr>brk := Suc ?n,
              cells := (cells s)(?n \<mapsto> ?nd,
                 lb \<mapsto> db\<lparr>typenext := Some ?n\<rparr>,
                 l \<mapsto> dl\<lparr>next := Some ?n\<rparr>)\<rparr>"
          by (rule machine_state.equality) (simp_all add: c False)
        show ?thesis
          unfolding eq
          using scan' first' te' dl lne db lbne ne
          by (simp add: device_list_add_def assert_fails_def malloc_or_die_def
              store_typelink_def store_devlink_def)
      qed
    qed
  qed
qed

lemma typenext_ok_snoc:
  assumes "typenext_ok h as" "distinct as" "n \<notin> set as"
    "h' n = Some e" "type e = ty" "typenext e = None"
    "\<forall>a \<in> set as. map_option type (h' a) = map_option type (h a)"
    "\<forall>a \<in> set as. map_option typenext (h' a) =
        (if of_type h ty as \<noteq> [] \<and> a = last (of_type h ty as)
         then map_option (\<lambda>d. Some n) (h a) else map_option typenext (h a))"
  shows "typenext_ok h' (as @ [n])"
  using assms(1,2,3,7,8)
proof (induction as)
  case Nil
  then show ?case using assms(4,6) by simp
next
  case (Cons a as)
  from Cons.prems(1) obtain d where d: "h a = Some d"
    "typenext d = first_of (of_type h (type d) as)" "typenext_ok h as"
    by auto
  have ain: "a \<notin> set as" and dist: "distinct as" and nin: "n \<notin> set as" "n \<noteq> a"
    using Cons.prems(2,3) by auto
  have ty_a: "map_option type (h' a) = Some (type d)" using Cons.prems(4) d by simp
  then obtain d' where d': "h' a = Some d'" "type d' = type d" by auto
  have sub: "set (of_type h ty as) \<subseteq> set as" by (auto simp: of_type_def)
  have tail: "\<forall>b \<in> set as. map_option typenext (h' b) =
        (if of_type h ty as \<noteq> [] \<and> b = last (of_type h ty as)
         then map_option (\<lambda>d. Some n) (h b) else map_option typenext (h b))"
  proof
    fix b assume b: "b \<in> set as"
    then have ba: "b \<noteq> a" using ain by auto
    have "(of_type h ty (a # as) \<noteq> [] \<and> b = last (of_type h ty (a # as))) =
          (of_type h ty as \<noteq> [] \<and> b = last (of_type h ty as))"
      using ba by (auto simp: of_type_Cons)
    then show "map_option typenext (h' b) =
        (if of_type h ty as \<noteq> [] \<and> b = last (of_type h ty as)
         then map_option (\<lambda>d. Some n) (h b) else map_option typenext (h b))"
      using Cons.prems(5) b by simp
  qed
  have IH: "typenext_ok h' (as @ [n])"
    using Cons.IH [OF d(3) dist nin(1) _ tail] Cons.prems(4) by simp
  have ot: "of_type h' (type d) (as @ [n]) =
      of_type h (type d) as @ (if type d = ty then [n] else [])"
  proof -
    have "of_type h' (type d) as = of_type h (type d) as"
      using Cons.prems(4) by (simp add: of_type_def cong: filter_cong)
    then show ?thesis using assms(4,5) by (auto simp: of_type_append of_type_Cons)
  qed
  have lastin: "of_type h ty as \<noteq> [] \<Longrightarrow> last (of_type h ty as) \<noteq> a"
    using sub ain last_in_set by blast
  have tn_a: "typenext d' = first_of (of_type h' (type d) (as @ [n]))"
  proof (cases "type d = ty")
    case True
    show ?thesis
    proof (cases "of_type h ty as = []")
      case e: True
      have "map_option typenext (h' a) = Some (Some n)"
        using Cons.prems(5) d True e by (simp add: of_type_Cons)
      then show ?thesis using d' ot True e by simp
    next
      case ne: False
      have "map_option typenext (h' a) = map_option typenext (h a)"
        using Cons.prems(5) d True ne lastin by (simp add: of_type_Cons)
      then show ?thesis using d d' ot True ne by (simp add: first_of_append)
    qed
  next
    case False
    have c: "\<not> (of_type h ty (a # as) \<noteq> [] \<and> a = last (of_type h ty (a # as)))"
      using False d lastin by (auto simp: of_type_Cons)
    have "map_option typenext (h' a) =
        (if of_type h ty (a # as) \<noteq> [] \<and> a = last (of_type h ty (a # as))
         then map_option (\<lambda>d. Some n) (h a) else map_option typenext (h a))"
      using Cons.prems(5) by simp
    then have "map_option typenext (h' a) = map_option typenext (h a)"
      by (simp only: if_not_P [OF c])
    then show ?thesis using d d' ot False by simp
  qed
  show ?case using d' tn_a IH by simp
qed


lemma chain_last:
  "chain h p (xs @ [l]) = (path h p xs (Some l) \<and> (\<exists>d. h l = Some d \<and> next d = None))"
  by (induction xs arbitrary: p) auto

lemma registry_linked:
  assumes reg: "registry s as"
  shows "registry (linked E s as f tg) (as @ [brk s])"
proof -
  let ?n = "brk s"
  let ?L = "linked E s as f tg"
  let ?nd = "new_device E f ?n tg"
  have ch: "chain (cells s) (devicelist s) as" using reg by (rule registry_chain)
  have nin: "?n \<notin> set as" using reg by (rule registry_fresh)
  have dist: "distinct as" using ch by (rule chain_distinct)
  have tn: "typenext_ok (cells s) as" using reg by (simp add: registry_def)
  have cn: "cells ?L ?n = Some ?nd" by (simp add: cells_linked)
  have nd: "next ?nd = None" "typenext ?nd = None" "type ?nd = Some f"
    by (simp_all add: new_device_def Let_def)
  have chain': "chain (cells ?L) (devicelist ?L) (as @ [?n])"
  proof (cases as rule: rev_cases)
    case Nil
    then show ?thesis using cn nd by simp
  next
    case (snoc xs l)
    from ch snoc obtain dl where p: "path (cells s) (devicelist s) xs (Some l)"
      and dl: "cells s l = Some dl" "next dl = None"
      by (auto simp: chain_last)
    have lx: "l \<notin> set xs" "?n \<notin> set xs" "l \<noteq> ?n" using dist nin snoc by auto
    have "\<forall>a \<in> set xs. map_option next (cells ?L a) = map_option next (cells s a)"
    proof
      fix a assume "a \<in> set xs"
      then have "a \<noteq> l" "a \<noteq> ?n" using lx by auto
      then show "map_option next (cells ?L a) = map_option next (cells s a)"
        by (simp add: cells_linked snoc option.map_comp o_def)
    qed
    then have p': "path (cells ?L) (devicelist s) xs (Some l)"
      using p path_cong by blast
    have "\<exists>d. cells ?L l = Some d \<and> next d = Some ?n"
      using dl lx snoc by (simp add: cells_linked)
    then have "path (cells ?L) (Some l) [l, ?n] None" using cn nd by auto
    then have "path (cells ?L) (devicelist s) (xs @ [l, ?n]) None"
      using p' path_append by blast
    then show ?thesis using snoc by (simp add: chain_path)
  qed
  have ty: "\<forall>a \<in> set as. map_option type (cells ?L a) = map_option type (cells s a)"
    using nin by (auto simp: cells_linked option.map_comp o_def)
  have tnx: "\<forall>a \<in> set as. map_option typenext (cells ?L a) =
        (if of_type (cells s) (Some f) as \<noteq> [] \<and> a = last (of_type (cells s) (Some f) as)
         then map_option (\<lambda>d. Some ?n) (cells s a) else map_option typenext (cells s a))"
    using nin by (auto simp: cells_linked option.map_comp o_def)
  have tn': "typenext_ok (cells ?L) (as @ [?n])"
    using typenext_ok_snoc [OF tn dist nin cn nd(3) nd(2) ty tnx] .
  have "list_all (\<lambda>a. a < brk ?L) (as @ [?n])"
    using reg by (auto simp: registry_def list_all_iff)
  then show ?thesis using chain' tn' by (simp add: registry_def)
qed

lemma key_of_linked:
  "key_of (linked E s as f tg) x = (if x = brk s then Some (Some f, tg) else key_of s x)"
  by (simp add: key_of_def cells_linked new_device_def Let_def option.map_comp o_def)

subsection \<open>Addition and lookup\<close>

lemma traversal_wildcard:
  "chain (cells s) (devicelist s) as \<Longrightarrow> traversal E s (DEVICE_TYPE_WILDCARD E) = Some as"
proof -
  assume ch: "chain (cells s) (devicelist s) as"
  have live: "matches_at E s (DEVICE_TYPE_WILDCARD E) a" if "a \<in> set as" for a
  proof -
    from that obtain d where "cells s a = Some d" using chain_live [OF ch] by blast
    then show ?thesis by (simp add: matches_at_def device_matches_type_def)
  qed
  have "find (matches_at E s (DEVICE_TYPE_WILDCARD E)) as = devicelist s"
    using ch live by (cases as) auto
  then show ?thesis
    using device_list_first_chain [OF ch, of E "DEVICE_TYPE_WILDCARD E"]
      visit_from_wildcard [OF ch, of "DEVICE_TYPE_WILDCARD E" E]
    by (simp add: traversal_def)
qed

lemma traversal_type:
  assumes "registry s as" "ty \<noteq> DEVICE_TYPE_WILDCARD E"
  shows "traversal E s ty = Some (of_type (cells s) ty as)"
proof -
  have ch: "chain (cells s) (devicelist s) as" using assms(1) by (rule registry_chain)
  have tn: "typenext_ok (cells s) as" using assms(1) by (simp add: registry_def)
  show ?thesis
    using device_list_first_of_type [OF ch assms(2)]
      visit_from_type [OF typenext_ok_tchain [OF tn, of ty] assms(2)]
    by (simp add: traversal_def)
qed

lemma find_snoc: "\<forall>x \<in> set xs. \<not> P x \<Longrightarrow> P n \<Longrightarrow> find P (xs @ [n]) = Some n"
  by (induction xs) auto

lemma find_middle: "\<forall>x \<in> set xs. \<not> P x \<Longrightarrow> P b \<Longrightarrow> find P (xs @ b # ys) = Some b"
  by (induction xs) auto

lemma tagged_at_key:
  "ty \<noteq> DEVICE_TYPE_WILDCARD E \<Longrightarrow> tagged_at E s ty tg a = (key_of s a = Some (ty, tg))"
  by (auto simp: tagged_at_def key_of_def device_matches_type_def split: option.splits)

text \<open>
  Claim C4. In a registry without a device of the type and tag given, for a type that
  is neither \<^verbatim>\<open>NULL\<close> nor the wildcard, \<^verbatim>\<open>device_list_add\<close> returns a record that
  \<^verbatim>\<open>device_list_find_by_tag\<close> then finds under this type and tag. For the first
  device \<open>b\<close> of a chain that matches a type (the wildcard included) and has a given
  tag, \<^verbatim>\<open>device_list_index\<close> is the number of devices before \<open>b\<close> that match the
  type, and \<^verbatim>\<open>device_list_find_by_index\<close> at that index returns \<open>b\<close>; at an index
  not below the number of matching devices it returns \<^verbatim>\<open>NULL\<close>. In a debug build
  the query type must not be \<^verbatim>\<open>NULL\<close>, which the two functions assert.
\<close>

theorem add_find_index_roundtrip:
  "(registry s as \<and> ty = Some f \<and> ty \<noteq> DEVICE_TYPE_WILDCARD E \<and>
      (\<forall>a \<in> set as. key_of s a \<noteq> Some (ty, tg)) \<longrightarrow>
      (\<exists>dev s'. device_list_add E s ty tg = Some (Inr dev, s') \<and>
         device_list_find_by_tag E s' (devicelist s') ty tg = Some (Some dev))) \<and>
   (chain (cells r) (devicelist r) (pre @ b # post) \<and> (MAME_DEBUG E \<longrightarrow> qty \<noteq> None) \<and>
      tagged_at E r qty qtg b \<and> (\<forall>a \<in> set pre. \<not> tagged_at E r qty qtg a) \<longrightarrow>
      device_list_find_by_tag E r (devicelist r) qty qtg = Some (Some b) \<and>
      device_list_index E r (devicelist r) qty qtg =
        Some (Inr (int (length (filter (matches_at E r qty) pre)))) \<and>
      device_list_find_by_index E r (devicelist r) qty
          (int (length (filter (matches_at E r qty) pre))) = Some (Inr (Some b))) \<and>
   (chain (cells r) (devicelist r) bs \<and> (MAME_DEBUG E \<longrightarrow> qty \<noteq> None) \<and>
      int (length (filter (matches_at E r qty) bs)) \<le> i \<longrightarrow>
      device_list_find_by_index E r (devicelist r) qty i = Some (Inr None))"
proof (intro conjI impI)
  assume a: "registry s as \<and> ty = Some f \<and> ty \<noteq> DEVICE_TYPE_WILDCARD E \<and>
      (\<forall>a \<in> set as. key_of s a \<noteq> Some (ty, tg))"
  let ?L = "linked E s as f tg"
  from a have reg: "registry s as" and tyf: "ty = Some f"
    and wc: "Some f \<noteq> DEVICE_TYPE_WILDCARD E"
    and fresh: "\<forall>a \<in> set as. key_of s a \<noteq> Some (Some f, tg)"
    by auto
  have add: "device_list_add E s ty tg = Some (Inr (brk s), ?L)"
    using device_list_add_linked [OF reg wc fresh] tyf by simp
  have regL: "registry ?L (as @ [brk s])" using reg by (rule registry_linked)
  have old: "\<forall>x \<in> set as. \<not> tagged_at E ?L ty tg x"
    using fresh wc registry_fresh [OF reg] by (auto simp: tyf tagged_at_key key_of_linked)
  have new: "tagged_at E ?L ty tg (brk s)"
    using wc by (simp add: tyf tagged_at_key key_of_linked)
  have "find (tagged_at E ?L ty tg) (as @ [brk s]) = Some (brk s)"
    using old new by (rule find_snoc)
  then have "device_list_find_by_tag E ?L (devicelist ?L) ty tg = Some (Some (brk s))"
    using device_list_find_by_tag_chain [OF registry_chain [OF regL]] by simp
  with add show "\<exists>dev s'. device_list_add E s ty tg = Some (Inr dev, s') \<and>
         device_list_find_by_tag E s' (devicelist s') ty tg = Some (Some dev)"
    by blast
next
  assume a: "chain (cells r) (devicelist r) (pre @ b # post) \<and> (MAME_DEBUG E \<longrightarrow> qty \<noteq> None) \<and>
      tagged_at E r qty qtg b \<and> (\<forall>a \<in> set pre. \<not> tagged_at E r qty qtg a)"
  then have ch: "chain (cells r) (devicelist r) (pre @ b # post)" by simp
  let ?M = "matches_at E r qty"
  have tw: "takeWhile (\<lambda>a. \<not> tagged_at E r qty qtg a) (pre @ b # post) = pre"
    using a by (simp add: takeWhile_tail)
  have ex: "\<exists>a \<in> set (pre @ b # post). tagged_at E r qty qtg a" using a by auto
  have fnd: "find (tagged_at E r qty qtg) (pre @ b # post) = Some b"
    using a by (simp add: find_middle)
  have na: "\<not> assert_fails E (qty \<noteq> None)" using a by (simp add: assert_fails_def)
  have mb: "?M b" using a tagged_matches by blast
  have idx: "index_loop E r (devicelist r) qty qtg 0 = Some (int (length (filter ?M pre)))"
    using index_loop_chain [OF ch, of E qty qtg 0] ex tw by (simp del: set_append)
  have nth: "filter ?M (pre @ b # post) ! length (filter ?M pre) = b"
    using mb by (simp add: nth_append)
  have lt: "length (filter ?M pre) < length (filter ?M (pre @ b # post))"
    using mb by simp
  have fbi: "find_by_index_loop E r (devicelist r) qty (int (length (filter ?M pre))) = Some (Some b)"
    using find_by_index_loop_chain [OF ch, of "int (length (filter ?M pre))" E qty] nth lt
    by (simp del: filter_append filter.simps)
  show "device_list_find_by_tag E r (devicelist r) qty qtg = Some (Some b)"
    using device_list_find_by_tag_chain [OF ch] fnd by simp
  show "device_list_index E r (devicelist r) qty qtg =
        Some (Inr (int (length (filter ?M pre))))"
    using idx na by (simp add: device_list_index_def)
  show "device_list_find_by_index E r (devicelist r) qty
          (int (length (filter ?M pre))) = Some (Inr (Some b))"
    using fbi na by (simp add: device_list_find_by_index_def assert_fails_def)
next
  assume a: "chain (cells r) (devicelist r) bs \<and> (MAME_DEBUG E \<longrightarrow> qty \<noteq> None) \<and>
      int (length (filter (matches_at E r qty) bs)) \<le> i"
  then have ch: "chain (cells r) (devicelist r) bs" and i: "0 \<le> i" by auto
  have "find_by_index_loop E r (devicelist r) qty i = Some None"
    using find_by_index_loop_chain [OF ch i, of E qty] a by auto
  then show "device_list_find_by_index E r (devicelist r) qty i = Some (Inr None)"
    using a i by (simp add: device_list_find_by_index_def assert_fails_def)
qed

text \<open>
  Claim C5. When the registry holds a device of the type and tag given,
  \<^verbatim>\<open>device_list_add\<close> ends with the fatal error for a duplicate device, and the
  memory at that moment is the memory before the call: nothing is allocated or
  linked, and the traversal of the registry still yields every device in its order.
\<close>

theorem duplicate_add_is_fatal:
  assumes "registry s as" "a \<in> set as" "key_of s a = Some (ty, tg)" "ty \<noteq> None"
  shows "\<exists>s'. device_list_add E s ty tg = Some (Inl (Duplicate_device ty tg), s') \<and> s' = s \<and>
           traversal E s' (DEVICE_TYPE_WILDCARD E) = Some as"
proof -
  have ch: "chain (cells s) (devicelist s) as" using assms(1) by (rule registry_chain)
  have "add_scan s ty tg Listhead (devicelist s) = Some (Inl (Duplicate_device ty tg))"
    using add_scan_chain [OF ch, of ty tg Listhead] assms(2,3) by auto
  then have "device_list_add E s ty tg = Some (Inl (Duplicate_device ty tg), s)"
    using assms(4) by (simp add: device_list_add_def assert_fails_def)
  then show ?thesis using traversal_wildcard [OF ch] by simp
qed


lemma registry_empty: "registry empty_registry []"
  by (simp add: registry_def empty_registry_def)

lemma registry_one_device: "registry one_device [0]"
  using registry_linked [OF registry_empty, of test_env 0 "''cpu''"]
  by (simp add: one_device_def empty_registry_def)

lemma key_of_one_device: "key_of one_device 0 = Some (Some 0, ''cpu'')"
  by (simp add: one_device_def key_of_linked empty_registry_def)

lemma wildcard_test_env: "DEVICE_TYPE_WILDCARD test_env = None" "MAME_DEBUG test_env"
  by (simp_all add: test_env_def)

theorem add_find_index_roundtrip_witness:
  "(\<exists>dev s'. device_list_add test_env one_device (Some 0) ''snd'' = Some (Inr dev, s') \<and>
      device_list_find_by_tag test_env s' (devicelist s') (Some 0) ''snd'' = Some (Some dev)) \<and>
   device_list_index test_env one_device (devicelist one_device) (Some 0) ''cpu'' = Some (Inr 0) \<and>
   device_list_find_by_index test_env one_device (devicelist one_device) (Some 0) 0 =
     Some (Inr (Some 0)) \<and>
   device_list_find_by_index test_env one_device (devicelist one_device) (Some 0) 1 =
     Some (Inr None)"
proof -
  have reg: "registry one_device [0]" by (rule registry_one_device)
  have ch: "chain (cells one_device) (devicelist one_device) ([] @ 0 # [])"
    using registry_chain [OF reg] by simp
  have fresh: "\<forall>a \<in> set [0]. key_of one_device a \<noteq> Some (Some 0, ''snd'')"
    by (simp add: key_of_one_device)
  have tg: "tagged_at test_env one_device (Some 0) ''cpu'' 0"
    by (simp add: tagged_at_key wildcard_test_env key_of_one_device)
  have m: "filter (matches_at test_env one_device (Some 0)) [0] = [0]"
    using tagged_matches [OF tg] by simp
  note inst = add_find_index_roundtrip [where s = one_device and as = "[0]" and ty = "Some 0"
      and f = 0 and E = test_env and tg = "''snd''" and r = one_device and pre = "[]" and b = 0
      and post = "[]" and qty = "Some 0" and qtg = "''cpu''" and bs = "[0]" and i = 1]
  have 1: "\<exists>dev s'. device_list_add test_env one_device (Some 0) ''snd'' = Some (Inr dev, s') \<and>
      device_list_find_by_tag test_env s' (devicelist s') (Some 0) ''snd'' = Some (Some dev)"
    using inst reg fresh by (simp add: wildcard_test_env)
  have 2: "device_list_index test_env one_device (devicelist one_device) (Some 0) ''cpu'' =
      Some (Inr 0) \<and>
    device_list_find_by_index test_env one_device (devicelist one_device) (Some 0) 0 =
      Some (Inr (Some 0))"
    using inst ch tg by simp
  have 3: "device_list_find_by_index test_env one_device (devicelist one_device) (Some 0) 1 =
     Some (Inr None)"
    using inst ch m by simp
  show ?thesis using 1 2 3 by blast
qed

theorem duplicate_add_is_fatal_witness:
  "device_list_add test_env one_device (Some 0) ''cpu'' =
     Some (Inl (Duplicate_device (Some 0) ''cpu''), one_device) \<and>
   traversal test_env one_device None = Some [0]"
  using duplicate_add_is_fatal [OF registry_one_device _ key_of_one_device, of test_env]
  by (simp add: wildcard_test_env)

subsection \<open>Removing a device\<close>

lemma unlinked_fields [simp]:
  "brk (unlinked s xs a da) = brk s"
  "devicelist (unlinked s xs a da) = (if xs = [] then next da else devicelist s)"
  "blocks (unlinked s xs a da) = blocks s"
  "reset_callbacks (unlinked s xs a da) = reset_callbacks s"
  "exit_callbacks (unlinked s xs a da) = exit_callbacks s"
  "frees (unlinked s xs a da) = frees s"
  "machine_state.more (unlinked s xs a da) = machine_state.more s"
  by (simp_all add: unlinked_def)

lemma cells_unlinked:
  "cells (unlinked s xs a da) x =
     (if x = a then None
      else map_option
             (\<lambda>d. d\<lparr> typenext :=
                        (if of_type (cells s) (type da) xs \<noteq> []
                            \<and> x = last (of_type (cells s) (type da) xs)
                         then typenext da else typenext d),
                      next := (if xs \<noteq> [] \<and> x = last xs then next da else next d) \<rparr>)
             (cells s x))"
  by (simp add: unlinked_def)

lemma takeWhile_middle:
  "\<forall>x \<in> set xs. P x \<Longrightarrow> \<not> P a \<Longrightarrow> takeWhile P (xs @ a # ys) = xs"
  by (induction xs) auto

lemma device_list_remove_unlinked:
  assumes reg: "registry s (xs @ a # ys)"
    and da: "cells s a = Some da"
    and key: "type da = ty" "tag da = tg"
    and nokey: "\<forall>x \<in> set xs. key_of s x \<noteq> Some (ty, tg)"
    and wc: "ty \<noteq> DEVICE_TYPE_WILDCARD E"
    and na: "MAME_DEBUG E \<longrightarrow> ty \<noteq> None"
  shows "device_list_remove E s ty tg = Some (Inr (), unlinked s xs a da)"
proof -
  let ?as = "xs @ a # ys"
  let ?U = "unlinked s xs a da"
  let ?ts = "of_type (cells s) ty xs"
  have ch: "chain (cells s) (devicelist s) ?as" using reg by (rule registry_chain)
  have dist: "distinct ?as" using ch by (rule chain_distinct)
  have tn: "typenext_ok (cells s) ?as" using reg by (simp add: registry_def)
  have ka: "key_of s a = Some (ty, tg)" using da key by (simp add: key_of_def)
  have tw: "takeWhile (\<lambda>x. key_of s x \<noteq> Some (ty, tg)) ?as = xs"
    using nokey ka by (simp add: takeWhile_middle)
  have fnd: "find (\<lambda>x. key_of s x = Some (ty, tg)) ?as = Some a"
    using nokey ka by (simp add: find_middle)
  have scan: "remove_scan s ty tg Listhead (devicelist s) =
      Some (if xs = [] then Listhead else Next_of (last xs), Some a)"
    using remove_scan_chain [OF ch, of ty tg Listhead] tw fnd by (simp add: Let_def)
  have bs: "of_type (cells s) ty ?as = ?ts @ a # of_type (cells s) ty ys"
    using da key by (simp add: of_type_append of_type_Cons)
  have first: "device_list_first E s (devicelist s) ty =
      Some (first_of (?ts @ a # of_type (cells s) ty ys))"
    using device_list_first_of_type [OF ch wc] bs by simp
  have tc: "tchain (cells s) (first_of (?ts @ a # of_type (cells s) ty ys))
      (?ts @ a # of_type (cells s) ty ys)"
    using typenext_ok_tchain [OF tn, of ty] bs by simp
  have ats: "a \<notin> set ?ts" using dist of_type_subset [of "cells s" ty xs] by auto
  have tw2: "takeWhile (\<lambda>b. b \<noteq> a) (?ts @ a # of_type (cells s) ty ys) = ?ts"
    using ats by (intro takeWhile_middle) auto
  have tf: "type_find s a Typedevice (first_of (?ts @ a # of_type (cells s) ty ys)) =
      Some (if ?ts = [] then Typedevice else Typenext_of (last ?ts))"
    using type_find_tchain [OF tc, of a Typedevice] tw2 by (simp add: Let_def)
  have naf: "\<not> assert_fails E (ty \<noteq> None)" using na by (simp add: assert_fails_def)
  show ?thesis
  proof (cases "xs = []")
    case True
    have c: "cells ?U = (cells s)(a := None)"
      by (rule ext) (simp add: cells_unlinked True option.map_ident)
    have eq: "?U = s\<lparr>devicelist := next da, cells := (cells s)(a := None)\<rparr>"
      by (rule machine_state.equality) (simp_all add: c, simp add: True)
    have scan': "remove_scan s ty tg Listhead (devicelist s) = Some (Listhead, Some a)"
      using scan True by simp
    have first': "device_list_first E s (devicelist s) ty = Some (Some a)"
      using first True by simp
    have tf': "type_find s a Typedevice (Some a) = Some Typedevice"
      using tf True by simp
    show ?thesis
      unfolding eq using scan' first' tf' da naf
      by (simp add: device_list_remove_def store_typelink_def store_devlink_def)
  next
    case False
    obtain l where l: "last xs = l" by simp
    have lin: "l \<in> set xs" using False l by auto
    then obtain dl where dl: "cells s l = Some dl"
      using chain_live [OF ch, of l] by auto
    have lne: "l \<noteq> a" using lin dist by auto
    have scan': "remove_scan s ty tg Listhead (devicelist s) = Some (Next_of l, Some a)"
      using scan False l by simp
    show ?thesis
    proof (cases "?ts = []")
      case True
      have c: "cells ?U = (cells s)(l \<mapsto> dl\<lparr>next := next da\<rparr>, a := None)"
        by (rule ext) (simp add: cells_unlinked key True False l dl lne option.map_ident)
      have eq: "?U = s\<lparr>cells := (cells s)(l \<mapsto> dl\<lparr>next := next da\<rparr>, a := None)\<rparr>"
        by (rule machine_state.equality) (simp_all add: c False)
      have first': "device_list_first E s (devicelist s) ty = Some (Some a)"
        using first True by simp
      have tf': "type_find s a Typedevice (Some a) = Some Typedevice"
        using tf True by simp
      show ?thesis
        unfolding eq using scan' first' tf' da naf dl lne
        by (simp add: device_list_remove_def store_typelink_def store_devlink_def)
    next
      case tne: False
      obtain lt where lt: "last ?ts = lt" by simp
      have ltin: "lt \<in> set xs" using last_of_type_in [OF tne] lt by simp
      then obtain dt where dt: "cells s lt = Some dt"
        using chain_live [OF ch, of lt] by auto
      have ltne: "lt \<noteq> a" using ltin dist by auto
      obtain b bs' where tsb: "?ts = b # bs'" using tne by (cases ?ts) auto
      have first': "device_list_first E s (devicelist s) ty = Some (Some b)"
        using first by (simp add: tsb)
      have tf': "type_find s a Typedevice (Some b) = Some (Typenext_of lt)"
        using tf lt by (simp add: tsb)
      show ?thesis
      proof (cases "l = lt")
        case True
        have dtl: "cells s l = Some dt" using dt True by simp
        have c: "cells ?U =
            (cells s)(l \<mapsto> dt\<lparr>typenext := typenext da, next := next da\<rparr>, a := None)"
          by (rule ext)
            (simp add: cells_unlinked key tne False l lt True [symmetric] dtl lne option.map_ident)
        have eq: "?U = s\<lparr>cells :=
            (cells s)(l \<mapsto> dt\<lparr>typenext := typenext da, next := next da\<rparr>, a := None)\<rparr>"
          by (rule machine_state.equality) (simp_all add: c False)
        have tf'': "type_find s a Typedevice (Some b) = Some (Typenext_of l)"
          using tf' True by simp
        show ?thesis
          unfolding eq using scan' first' tf'' da naf dtl lne
          by (simp add: device_list_remove_def store_typelink_def store_devlink_def)
      next
        case ne: False
        have c: "cells ?U =
            (cells s)(lt \<mapsto> dt\<lparr>typenext := typenext da\<rparr>, l \<mapsto> dl\<lparr>next := next da\<rparr>, a := None)"
          by (rule ext)
            (simp add: cells_unlinked key tne False l lt dl dt lne ltne ne option.map_ident)
        have eq: "?U = s\<lparr>cells :=
            (cells s)(lt \<mapsto> dt\<lparr>typenext := typenext da\<rparr>, l \<mapsto> dl\<lparr>next := next da\<rparr>, a := None)\<rparr>"
          by (rule machine_state.equality) (simp_all add: c False)
        show ?thesis
          unfolding eq using scan' first' tf' da naf dl dt lne ltne ne
          by (simp add: device_list_remove_def store_typelink_def store_devlink_def)
      qed
    qed
  qed
qed

lemma typenext_ok_unlink:
  assumes "typenext_ok h (xs @ a # ys)" "distinct (xs @ a # ys)" "h a = Some da"
    "\<forall>x \<in> set (xs @ ys). map_option type (h' x) = map_option type (h x)"
    "\<forall>x \<in> set (xs @ ys). map_option typenext (h' x) =
        (if of_type h (type da) xs \<noteq> [] \<and> x = last (of_type h (type da) xs)
         then map_option (\<lambda>d. typenext da) (h x) else map_option typenext (h x))"
  shows "typenext_ok h' (xs @ ys)"
  using assms(1,2,4,5)
proof (induction xs)
  case Nil
  have "typenext_ok h ys" using Nil.prems(1) by auto
  moreover have "\<forall>x \<in> set ys. map_option type (h' x) = map_option type (h x) \<and>
      map_option typenext (h' x) = map_option typenext (h x)"
    using Nil.prems(3,4) by simp
  ultimately show ?case using typenext_ok_cong [of ys h' h] by simp
next
  case (Cons x xs)
  let ?T = "type da"
  from Cons.prems(1) obtain d where d: "h x = Some d"
    "typenext d = first_of (of_type h (type d) (xs @ a # ys))" "typenext_ok h (xs @ a # ys)"
    by auto
  have dist: "distinct (xs @ a # ys)" and xn: "x \<notin> set xs" "x \<noteq> a" "x \<notin> set ys"
    using Cons.prems(2) by auto
  have da_tn: "typenext da = first_of (of_type h ?T ys)"
    using typenext_ok_append [OF d(3)] assms(3) by auto
  have sub: "set (of_type h ?T xs) \<subseteq> set xs" by (rule of_type_subset)
  have lastin: "of_type h ?T xs \<noteq> [] \<Longrightarrow> last (of_type h ?T xs) \<noteq> x"
    using sub xn last_in_set by blast
  have ty': "\<forall>y \<in> set (xs @ ys). map_option type (h' y) = map_option type (h y)"
    using Cons.prems(3) by simp
  have tail: "\<forall>y \<in> set (xs @ ys). map_option typenext (h' y) =
        (if of_type h ?T xs \<noteq> [] \<and> y = last (of_type h ?T xs)
         then map_option (\<lambda>d. typenext da) (h y) else map_option typenext (h y))"
  proof
    fix y assume y: "y \<in> set (xs @ ys)"
    then have yx: "y \<noteq> x" using xn by auto
    have "(of_type h ?T (x # xs) \<noteq> [] \<and> y = last (of_type h ?T (x # xs))) =
          (of_type h ?T xs \<noteq> [] \<and> y = last (of_type h ?T xs))"
      using yx by (auto simp: of_type_Cons)
    moreover have "map_option typenext (h' y) =
        (if of_type h ?T (x # xs) \<noteq> [] \<and> y = last (of_type h ?T (x # xs))
         then map_option (\<lambda>d. typenext da) (h y) else map_option typenext (h y))"
      using Cons.prems(4) y by simp
    ultimately show "map_option typenext (h' y) =
        (if of_type h ?T xs \<noteq> [] \<and> y = last (of_type h ?T xs)
         then map_option (\<lambda>d. typenext da) (h y) else map_option typenext (h y))"
      by simp
  qed
  have IH: "typenext_ok h' (xs @ ys)" using Cons.IH [OF d(3) dist ty' tail] .
  have "map_option type (h' x) = Some (type d)" using Cons.prems(3) d by simp
  then obtain d' where d': "h' x = Some d'" "type d' = type d" by auto
  have ot': "of_type h' U (xs @ ys) = of_type h U (xs @ ys)" for U
    using ty' by (rule of_type_cong)
  have hx: "map_option typenext (h' x) =
        (if of_type h ?T (x # xs) \<noteq> [] \<and> x = last (of_type h ?T (x # xs))
         then map_option (\<lambda>d. typenext da) (h x) else map_option typenext (h x))"
    using Cons.prems(4) by simp
  have tn_x: "typenext d' = first_of (of_type h (type d) (xs @ ys))"
  proof (cases "type d = ?T")
    case True
    show ?thesis
    proof (cases "of_type h ?T xs = []")
      case e: True
      have c: "of_type h ?T (x # xs) \<noteq> [] \<and> x = last (of_type h ?T (x # xs))"
        using d True e by (simp add: of_type_Cons)
      have "map_option typenext (h' x) = map_option (\<lambda>d. typenext da) (h x)"
        using hx unfolding if_P [OF c] .
      then show ?thesis using d d' da_tn e True by (simp add: of_type_append)
    next
      case ne: False
      have c: "\<not> (of_type h ?T (x # xs) \<noteq> [] \<and> x = last (of_type h ?T (x # xs)))"
        using d True ne lastin by (simp add: of_type_Cons)
      have "map_option typenext (h' x) = map_option typenext (h x)"
        using hx by (simp only: if_not_P [OF c])
      then show ?thesis using d d' True ne by (simp add: of_type_append first_of_append)
    qed
  next
    case False
    have c: "\<not> (of_type h ?T (x # xs) \<noteq> [] \<and> x = last (of_type h ?T (x # xs)))"
      using d False lastin by (auto simp: of_type_Cons)
    have "map_option typenext (h' x) = map_option typenext (h x)"
      using hx by (simp only: if_not_P [OF c])
    moreover have "of_type h (type d) (xs @ a # ys) = of_type h (type d) (xs @ ys)"
      using False assms(3) by (auto simp: of_type_append of_type_Cons)
    ultimately show ?thesis using d d' by simp
  qed
  show ?case using d' tn_x IH ot' by simp
qed

lemma path_last:
  "path h p (xs @ [l]) q = (path h p xs (Some l) \<and> (\<exists>d. h l = Some d \<and> next d = q))"
  by (induction xs arbitrary: p) auto

lemma chain_split:
  "chain h p (xs @ a # ys) =
     (path h p xs (Some a) \<and> (\<exists>d. h a = Some d \<and> chain h (next d) ys))"
  by (induction xs arbitrary: p) auto

lemma registry_unlinked:
  assumes reg: "registry s (xs @ a # ys)" and da: "cells s a = Some da"
  shows "registry (unlinked s xs a da) (xs @ ys)"
proof -
  let ?U = "unlinked s xs a da"
  have ch: "chain (cells s) (devicelist s) (xs @ a # ys)" using reg by (rule registry_chain)
  have dist: "distinct (xs @ a # ys)" using ch by (rule chain_distinct)
  have tn: "typenext_ok (cells s) (xs @ a # ys)" using reg by (simp add: registry_def)
  from ch da have p: "path (cells s) (devicelist s) xs (Some a)"
    and cy: "chain (cells s) (next da) ys"
    by (auto simp: chain_split)
  have ys_next: "\<forall>y \<in> set ys. map_option next (cells ?U y) = map_option next (cells s y)"
  proof
    fix y assume y: "y \<in> set ys"
    then have ya: "y \<noteq> a" using dist by auto
    have nl: "(xs \<noteq> [] \<and> y = last xs) = False" using y dist last_in_set by fastforce
    show "map_option next (cells ?U y) = map_option next (cells s y)"
      using ya by (simp add: cells_unlinked option.map_comp o_def nl)
  qed
  then have cy': "chain (cells ?U) (next da) ys" using cy chain_cong by blast
  have chain': "chain (cells ?U) (devicelist ?U) (xs @ ys)"
  proof (cases xs rule: rev_cases)
    case Nil
    then show ?thesis using cy' by simp
  next
    case (snoc zs l)
    from p snoc obtain dl where pz: "path (cells s) (devicelist s) zs (Some l)"
      and dl: "cells s l = Some dl" "next dl = Some a"
      by (auto simp: path_last)
    have lz: "l \<notin> set zs" "a \<notin> set zs" "l \<noteq> a" using dist snoc by auto
    have "\<forall>z \<in> set zs. map_option next (cells ?U z) = map_option next (cells s z)"
    proof
      fix z assume "z \<in> set zs"
      then have "z \<noteq> l" "z \<noteq> a" using lz by auto
      then show "map_option next (cells ?U z) = map_option next (cells s z)"
        by (simp add: cells_unlinked snoc option.map_comp o_def)
    qed
    then have pz': "path (cells ?U) (devicelist s) zs (Some l)" using pz path_cong by blast
    have "\<exists>d. cells ?U l = Some d \<and> next d = next da"
      using dl lz snoc by (simp add: cells_unlinked)
    then have "chain (cells ?U) (Some l) (l # ys)" using cy' by auto
    then have "path (cells ?U) (devicelist s) (zs @ l # ys) None"
      using pz' path_append chain_path by blast
    then show ?thesis using snoc by (simp add: chain_path)
  qed
  have ty: "\<forall>x \<in> set (xs @ ys). map_option type (cells ?U x) = map_option type (cells s x)"
    using dist by (auto simp: cells_unlinked option.map_comp o_def)
  have tnx: "\<forall>x \<in> set (xs @ ys). map_option typenext (cells ?U x) =
        (if of_type (cells s) (type da) xs \<noteq> [] \<and> x = last (of_type (cells s) (type da) xs)
         then map_option (\<lambda>d. typenext da) (cells s x) else map_option typenext (cells s x))"
    using dist by (auto simp: cells_unlinked option.map_comp o_def)
  have tn': "typenext_ok (cells ?U) (xs @ ys)"
    using typenext_ok_unlink [OF tn dist da ty tnx] .
  have "list_all (\<lambda>x. x < brk ?U) (xs @ ys)"
    using reg by (auto simp: registry_def list_all_iff)
  then show ?thesis using chain' tn' by (simp add: registry_def)
qed

lemma key_of_unlinked:
  "x \<noteq> a \<Longrightarrow> key_of (unlinked s xs a da) x = key_of s x"
  by (simp add: key_of_def cells_unlinked option.map_comp o_def)

subsection \<open>Sequences of additions and removals\<close>

lemma find_Some_split:
  "find P as = Some a \<Longrightarrow> \<exists>xs ys. as = xs @ a # ys \<and> P a \<and> (\<forall>x \<in> set xs. \<not> P x)"
proof (induction as)
  case Nil
  then show ?case by simp
next
  case (Cons b as)
  show ?case
  proof (cases "P b")
    case True
    then have "a = b" using Cons.prems by simp
    then show ?thesis using True by (intro exI [of _ "[]"] exI [of _ as]) simp
  next
    case False
    then have "find P as = Some a" using Cons.prems by simp
    from Cons.IH [OF this] obtain xs ys where
      "as = xs @ a # ys" "P a" "\<forall>x \<in> set xs. \<not> P x" by blast
    then show ?thesis using False by (intro exI [of _ "b # xs"] exI [of _ ys]) simp
  qed
qed

lemma device_list_add_Inr:
  assumes "chain (cells s) (devicelist s) as" "device_list_add E s ty tg = Some (Inr dev, s')"
  shows "(\<exists>f. ty = Some f) \<and> (\<forall>a \<in> set as. key_of s a \<noteq> Some (ty, tg))"
proof -
  have scan: "add_scan s ty tg Listhead (devicelist s) =
     Some (if \<exists>a \<in> set as. key_of s a = Some (ty, tg) then Inl (Duplicate_device ty tg)
           else Inr (if as = [] then Listhead else Next_of (last as)))"
    using add_scan_chain [OF assms(1)] .
  have "\<not> (\<exists>a \<in> set as. key_of s a = Some (ty, tg))"
  proof
    assume "\<exists>a \<in> set as. key_of s a = Some (ty, tg)"
    then have "add_scan s ty tg Listhead (devicelist s) = Some (Inl (Duplicate_device ty tg))"
      using scan by simp
    then show False using assms(2)
      by (simp add: device_list_add_def split: if_splits)
  qed
  moreover have "ty \<noteq> None"
  proof
    assume "ty = None"
    then show False using assms(2) scan
      by (simp add: device_list_add_def split: if_splits)
  qed
  ultimately show ?thesis by auto
qed

lemma device_list_remove_Inr:
  assumes "chain (cells s) (devicelist s) as" "device_list_remove E s ty tg = Some (Inr u, s')"
  shows "(MAME_DEBUG E \<longrightarrow> ty \<noteq> None) \<and>
         (\<exists>xs a ys. as = xs @ a # ys \<and> key_of s a = Some (ty, tg) \<and>
            (\<forall>x \<in> set xs. key_of s x \<noteq> Some (ty, tg)))"
proof -
  let ?K = "\<lambda>a. key_of s a = Some (ty, tg)"
  have scan: "remove_scan s ty tg Listhead (devicelist s) =
     Some (let xs = takeWhile (\<lambda>a. key_of s a \<noteq> Some (ty, tg)) as
           in (if xs = [] then Listhead else Next_of (last xs), find ?K as))"
    using remove_scan_chain [OF assms(1)] .
  have na: "MAME_DEBUG E \<longrightarrow> ty \<noteq> None"
    using assms(2) by (auto simp: device_list_remove_def assert_fails_def split: if_splits)
  have "find ?K as \<noteq> None"
  proof
    assume "find ?K as = None"
    then show False using assms(2) scan
      by (simp add: device_list_remove_def Let_def split: if_splits)
  qed
  then obtain a where "find ?K as = Some a" by auto
  from find_Some_split [OF this] na show ?thesis by blast
qed

lemma map_key_split:
  assumes "map k (xs @ a # ys) = map Some ks"
  shows "\<exists>kx ka ky. ks = kx @ ka # ky \<and> map k xs = map Some kx \<and> k a = Some ka \<and>
           map k ys = map Some ky"
proof -
  from assms have "map Some ks = map k xs @ k a # map k ys" by simp
  then obtain kx kr where 1: "ks = kx @ kr" "map Some kx = map k xs"
    "map Some kr = k a # map k ys"
    by (auto simp: map_eq_append_conv)
  from 1(3) obtain ka ky where "kr = ka # ky" "Some ka = k a" "map Some ky = map k ys"
    by (auto simp: map_eq_Cons_conv)
  with 1 show ?thesis
    by (intro exI [of _ kx] exI [of _ ka] exI [of _ ky]) simp
qed

lemma run_ops_registry:
  assumes "registry s as" "map (key_of s) as = map Some ks"
    "\<forall>op \<in> set ops. op_type op \<noteq> DEVICE_TYPE_WILDCARD E"
    "run_ops E s ops = Some (Inr (), s')"
  shows "\<exists>as'. registry s' as' \<and> map (key_of s') as' = map Some (registered ks ops)"
  using assms
proof (induction ops arbitrary: s as ks)
  case Nil
  then show ?case by auto
next
  case (Cons op ops)
  have ch: "chain (cells s) (devicelist s) as" using Cons.prems(1) by (rule registry_chain)
  have wcs: "\<forall>op \<in> set ops. op_type op \<noteq> DEVICE_TYPE_WILDCARD E" using Cons.prems(3) by simp
  show ?case
  proof (cases op)
    case (Add ty tg)
    from Cons.prems(4) Add obtain dev s1 where
      add: "device_list_add E s ty tg = Some (Inr dev, s1)"
      and run: "run_ops E s1 ops = Some (Inr (), s')"
      by (auto split: option.splits sum.splits)
    from device_list_add_Inr [OF ch add] obtain f where f: "ty = Some f"
      and fresh: "\<forall>a \<in> set as. key_of s a \<noteq> Some (Some f, tg)" by auto
    have wc: "Some f \<noteq> DEVICE_TYPE_WILDCARD E" using Cons.prems(3) Add f by simp
    have s1: "s1 = linked E s as f tg"
      using device_list_add_linked [OF Cons.prems(1) wc fresh] add f by simp
    have reg1: "registry s1 (as @ [brk s])"
      unfolding s1 using Cons.prems(1) by (rule registry_linked)
    have "\<forall>a \<in> set as. key_of s1 a = key_of s a"
      using registry_fresh [OF Cons.prems(1)] by (auto simp: s1 key_of_linked)
    then have "map (key_of s1) as = map (key_of s) as" by simp
    then have keys1: "map (key_of s1) (as @ [brk s]) = map Some (ks @ [(ty, tg)])"
      using Cons.prems(2) by (simp add: s1 key_of_linked f)
    from Cons.IH [OF reg1 keys1 wcs run] show ?thesis using Add by simp
  next
    case (Remove ty tg)
    from Cons.prems(4) Remove obtain u s1 where
      rem: "device_list_remove E s ty tg = Some (Inr u, s1)"
      and run: "run_ops E s1 ops = Some (Inr (), s')"
      by (auto split: option.splits sum.splits)
    from device_list_remove_Inr [OF ch rem] obtain xs a ys where
      na: "MAME_DEBUG E \<longrightarrow> ty \<noteq> None" and as: "as = xs @ a # ys"
      and ka: "key_of s a = Some (ty, tg)"
      and nk: "\<forall>x \<in> set xs. key_of s x \<noteq> Some (ty, tg)"
      by blast
    from ka obtain da where da: "cells s a = Some da" "type da = ty" "tag da = tg"
      by (auto simp: key_of_def)
    have wc: "ty \<noteq> DEVICE_TYPE_WILDCARD E" using Cons.prems(3) Remove by simp
    have reg: "registry s (xs @ a # ys)" using Cons.prems(1) as by simp
    have s1: "s1 = unlinked s xs a da"
      using device_list_remove_unlinked [OF reg da nk wc na] rem by simp
    have reg1: "registry s1 (xs @ ys)"
      unfolding s1 using reg da(1) by (rule registry_unlinked)
    have dist: "distinct (xs @ a # ys)" using chain_distinct [OF ch] as by simp
    have same: "\<forall>x \<in> set (xs @ ys). key_of s1 x = key_of s x"
    proof
      fix x assume "x \<in> set (xs @ ys)"
      then have "x \<noteq> a" using dist by auto
      then show "key_of s1 x = key_of s x" by (simp add: s1 key_of_unlinked)
    qed
    from map_key_split [of "key_of s" xs a ys ks] Cons.prems(2) as obtain kx ka' ky where
      ks: "ks = kx @ ka' # ky" and kx: "map (key_of s) xs = map Some kx"
      and ka': "key_of s a = Some ka'" and ky: "map (key_of s) ys = map Some ky"
      by auto
    have ka'': "ka' = (ty, tg)" using ka ka' by simp
    have "(ty, tg) \<notin> set kx"
    proof
      assume "(ty, tg) \<in> set kx"
      then have "Some (ty, tg) \<in> set (map (key_of s) xs)" using kx by simp
      then show False using nk by auto
    qed
    then have rm: "remove1 (ty, tg) ks = kx @ ky" by (simp add: ks ka'' remove1_append)
    have "map (key_of s1) (xs @ ys) = map (key_of s) (xs @ ys)" using same by simp
    then have keys1: "map (key_of s1) (xs @ ys) = map Some (remove1 (ty, tg) ks)"
      using kx ky rm by simp
    from Cons.IH [OF reg1 keys1 wcs run] show ?thesis using Remove by simp
  qed
qed

lemma keys_mem:
  assumes "map (key_of s) as = map Some ks"
  shows "(k \<in> set ks) = (\<exists>a \<in> set as. key_of s a = Some k)"
proof -
  have eq: "Some ` set ks = key_of s ` set as"
    using assms by (metis set_map)
  show ?thesis
  proof
    assume "k \<in> set ks"
    then have "Some k \<in> key_of s ` set as" using eq by blast
    then show "\<exists>a \<in> set as. key_of s a = Some k" by force
  next
    assume "\<exists>a \<in> set as. key_of s a = Some k"
    then have "Some k \<in> Some ` set ks" using eq by force
    then show "k \<in> set ks" by blast
  qed
qed

lemma run_ops_accepted:
  assumes "registry s as" "map (key_of s) as = map Some ks" "accepted E ks ops"
  shows "\<exists>s'. run_ops E s ops = Some (Inr (), s')"
  using assms
proof (induction ops arbitrary: s as ks)
  case Nil
  then show ?case by simp
next
  case (Cons op ops)
  have ch: "chain (cells s) (devicelist s) as" using Cons.prems(1) by (rule registry_chain)
  show ?case
  proof (cases op)
    case (Add ty tg)
    with Cons.prems(3) obtain f where f: "ty = Some f"
      and wc: "Some f \<noteq> DEVICE_TYPE_WILDCARD E" and nk: "(Some f, tg) \<notin> set ks"
      and acc: "accepted E (ks @ [(Some f, tg)]) ops"
      by auto
    have fresh: "\<forall>a \<in> set as. key_of s a \<noteq> Some (Some f, tg)"
      using nk keys_mem [OF Cons.prems(2), of "(Some f, tg)"] by auto
    let ?s1 = "linked E s as f tg"
    have add: "device_list_add E s ty tg = Some (Inr (brk s), ?s1)"
      using device_list_add_linked [OF Cons.prems(1) wc fresh] f by simp
    have reg1: "registry ?s1 (as @ [brk s])"
      using Cons.prems(1) by (rule registry_linked)
    have "\<forall>a \<in> set as. key_of ?s1 a = key_of s a"
      using registry_fresh [OF Cons.prems(1)] by (auto simp: key_of_linked)
    then have "map (key_of ?s1) as = map (key_of s) as" by simp
    then have keys1: "map (key_of ?s1) (as @ [brk s]) = map Some (ks @ [(Some f, tg)])"
      using Cons.prems(2) by (simp add: key_of_linked)
    from Cons.IH [OF reg1 keys1 acc] show ?thesis using Add add by simp
  next
    case (Remove ty tg)
    with Cons.prems(3) have tn: "ty \<noteq> None"
      and wc: "ty \<noteq> DEVICE_TYPE_WILDCARD E" and k: "(ty, tg) \<in> set ks"
      and acc: "accepted E (remove1 (ty, tg) ks) ops"
      by auto
    let ?K = "\<lambda>a. key_of s a = Some (ty, tg)"
    have "\<exists>a \<in> set as. ?K a" using k keys_mem [OF Cons.prems(2), of "(ty, tg)"] by simp
    then have "find ?K as \<noteq> None" by (auto simp: find_None_iff)
    then obtain a where "find ?K as = Some a" by auto
    from find_Some_split [OF this] obtain xs ys where as: "as = xs @ a # ys"
      and ka: "key_of s a = Some (ty, tg)"
      and nk: "\<forall>x \<in> set xs. key_of s x \<noteq> Some (ty, tg)"
      by blast
    from ka obtain da where da: "cells s a = Some da" "type da = ty" "tag da = tg"
      by (auto simp: key_of_def)
    have reg: "registry s (xs @ a # ys)" using Cons.prems(1) as by simp
    have na: "MAME_DEBUG E \<longrightarrow> ty \<noteq> None" using tn by simp
    let ?s1 = "unlinked s xs a da"
    have rem: "device_list_remove E s ty tg = Some (Inr (), ?s1)"
      using device_list_remove_unlinked [OF reg da nk wc na] .
    have reg1: "registry ?s1 (xs @ ys)"
      using reg da(1) by (rule registry_unlinked)
    have dist: "distinct (xs @ a # ys)" using chain_distinct [OF ch] as by simp
    have same: "\<forall>x \<in> set (xs @ ys). key_of ?s1 x = key_of s x"
    proof
      fix x assume "x \<in> set (xs @ ys)"
      then have "x \<noteq> a" using dist by auto
      then show "key_of ?s1 x = key_of s x" by (simp add: key_of_unlinked)
    qed
    from map_key_split [of "key_of s" xs a ys ks] Cons.prems(2) as obtain kx ka' ky where
      ks: "ks = kx @ ka' # ky" and kx: "map (key_of s) xs = map Some kx"
      and ka': "key_of s a = Some ka'" and ky: "map (key_of s) ys = map Some ky"
      by auto
    have ka'': "ka' = (ty, tg)" using ka ka' by simp
    have "(ty, tg) \<notin> set kx"
    proof
      assume "(ty, tg) \<in> set kx"
      then have "Some (ty, tg) \<in> set (map (key_of s) xs)" using kx by simp
      then show False using nk by auto
    qed
    then have rm: "remove1 (ty, tg) ks = kx @ ky" by (simp add: ks ka'' remove1_append)
    have "map (key_of ?s1) (xs @ ys) = map (key_of s) (xs @ ys)" using same by simp
    then have keys1: "map (key_of ?s1) (xs @ ys) = map Some (remove1 (ty, tg) ks)"
      using kx ky rm by simp
    from Cons.IH [OF reg1 keys1 acc] show ?thesis using Remove rem by simp
  qed
qed

lemma keys_of_type:
  "map (key_of s) as = map Some ks \<Longrightarrow>
   map (key_of s) (of_type (cells s) ty as) = map Some (filter (\<lambda>k. fst k = ty) ks)"
proof (induction as arbitrary: ks)
  case Nil
  then show ?case by simp
next
  case (Cons a as)
  then obtain k ks' where ks: "ks = k # ks'" and k: "key_of s a = Some k"
    and rest: "map (key_of s) as = map Some ks'"
    by (cases ks) auto
  have "(map_option type (cells s a) = Some ty) = (fst k = ty)"
    using k by (auto simp: key_of_def)
  then show ?case using Cons.IH [OF rest] k ks by (simp add: of_type_Cons)
qed

lemma accepted_op_type:
  "accepted E ks ops \<Longrightarrow> \<forall>op \<in> set ops. op_type op \<noteq> DEVICE_TYPE_WILDCARD E"
proof (induction ops arbitrary: ks)
  case Nil
  then show ?case by simp
next
  case (Cons op ops)
  then show ?case by (cases op) auto
qed

text \<open>
  Claim C6. Every sequence of additions and removals that the registry accepts (each
  names a type that is neither \<^verbatim>\<open>NULL\<close> nor the wildcard, an addition a type and tag
  that are not registered, a removal a type and tag that are) runs from the empty
  registry to its end without a fatal error. After it the traversal with the
  wildcard type (\<^verbatim>\<open>device_list_first\<close>, then \<^verbatim>\<open>device_list_next\<close> along \<^verbatim>\<open>next\<close>)
  yields the registered devices in the order of their insertion, and the traversal
  for a type (along \<^verbatim>\<open>typenext\<close>) yields exactly the devices of this type among
  them, in the same relative order.
\<close>

theorem traversal_in_insertion_order:
  assumes "accepted E [] ops"
  shows "\<exists>s as. run_ops E empty_registry ops = Some (Inr (), s) \<and>
           traversal E s (DEVICE_TYPE_WILDCARD E) = Some as \<and>
           map (key_of s) as = map Some (registered [] ops) \<and>
           (\<forall>ty. ty \<noteq> DEVICE_TYPE_WILDCARD E \<longrightarrow>
              (\<exists>bs. traversal E s ty = Some bs \<and>
                 bs = filter (\<lambda>a. map_option type (cells s a) = Some ty) as \<and>
                 map (key_of s) bs = map Some (filter (\<lambda>k. fst k = ty) (registered [] ops))))"
proof -
  from run_ops_accepted [OF registry_empty _ assms]
  obtain s where run: "run_ops E empty_registry ops = Some (Inr (), s)" by auto
  from run_ops_registry [OF registry_empty _ accepted_op_type [OF assms] run, of "[]"]
  obtain as where reg: "registry s as"
    and keys: "map (key_of s) as = map Some (registered [] ops)"
    by auto
  have w: "traversal E s (DEVICE_TYPE_WILDCARD E) = Some as"
    using traversal_wildcard [OF registry_chain [OF reg]] .
  have t: "ty \<noteq> DEVICE_TYPE_WILDCARD E \<longrightarrow>
              (\<exists>bs. traversal E s ty = Some bs \<and>
                 bs = filter (\<lambda>a. map_option type (cells s a) = Some ty) as \<and>
                 map (key_of s) bs = map Some (filter (\<lambda>k. fst k = ty) (registered [] ops)))" for ty
    using traversal_type [OF reg, of ty E] keys_of_type [OF keys, of ty]
    by (auto simp: of_type_def)
  show ?thesis using run w keys t by blast
qed

theorem traversal_in_insertion_order_witness:
  "\<exists>s as bs cs. run_ops test_env empty_registry test_ops = Some (Inr (), s) \<and>
     traversal test_env s None = Some as \<and>
     map (key_of s) as = [Some (Some 0, ''a1''), Some (Some 1, ''b1''), Some (Some 0, ''a3''),
                          Some (Some 0, ''a4'')] \<and>
     traversal test_env s (Some 0) = Some bs \<and>
     map (key_of s) bs = [Some (Some 0, ''a1''), Some (Some 0, ''a3''), Some (Some 0, ''a4'')] \<and>
     traversal test_env s (Some 1) = Some cs \<and>
     map (key_of s) cs = [Some (Some 1, ''b1'')]"
proof -
  have wc: "DEVICE_TYPE_WILDCARD test_env = None" by (simp add: test_env_def)
  have acc: "accepted test_env [] test_ops" by (simp add: test_ops_def wc)
  have r: "registered [] test_ops =
             [(Some 0, ''a1''), (Some 1, ''b1''), (Some 0, ''a3''), (Some 0, ''a4'')]"
    by (simp add: test_ops_def)
  from traversal_in_insertion_order [OF acc] obtain s as where
    run: "run_ops test_env empty_registry test_ops = Some (Inr (), s)"
    and w: "traversal test_env s None = Some as"
    and k: "map (key_of s) as = [Some (Some 0, ''a1''), Some (Some 1, ''b1''),
                                 Some (Some 0, ''a3''), Some (Some 0, ''a4'')]"
    and t: "\<forall>ty. ty \<noteq> None \<longrightarrow>
              (\<exists>bs. traversal test_env s ty = Some bs \<and>
                 map (key_of s) bs = map Some (filter (\<lambda>k. fst k = ty)
                    [(Some 0, ''a1''), (Some 1, ''b1''), (Some 0, ''a3''), (Some 0, ''a4'')]))"
    unfolding wc r by auto
  from t [rule_format, of "Some 0"] obtain bs where
    b1: "traversal test_env s (Some 0) = Some bs" and
    b2: "map (key_of s) bs = [Some (Some 0, ''a1''), Some (Some 0, ''a3''), Some (Some 0, ''a4'')]"
    by auto
  from t [rule_format, of "Some 1"] obtain cs where
    c1: "traversal test_env s (Some 1) = Some cs" and
    c2: "map (key_of s) cs = [Some (Some 1, ''b1'')]"
    by auto
  show ?thesis
    by (intro exI [of _ s] exI [of _ as] exI [of _ bs] exI [of _ cs] conjI)
       (rule run w k b1 b2 c1 c2)+
qed

subsection \<open>The example machines\<close>

text \<open>
  \<open>one_attached\<close> and \<open>two_attached\<close> are what \<^verbatim>\<open>device_list_add\<close> and
  \<^verbatim>\<open>device_list_attach_machine\<close> make of the empty registry.
\<close>

lemma brk_empty_registry: "brk empty_registry = 0"
  by (simp add: empty_registry_def)

lemma add_first_device:
  assumes wc: "DEVICE_TYPE_WILDCARD E \<noteq> Some 0"
  shows "device_list_add E empty_registry (Some 0) ''a'' =
           Some (Inr 0, linked E empty_registry [] 0 ''a'')"
  using device_list_add_linked [OF registry_empty, of 0 E "''a''"] wc
  by (simp add: empty_registry_def)

lemma cells_first_device:
  "cells (linked E empty_registry [] 0 ''a'') x =
     (if x = 0 then Some (new_device E 0 0 ''a'') else None)"
  by (simp add: cells_linked empty_registry_def)

lemma attach_first_device:
  "device_list_attach_machine (linked E empty_registry [] 0 ''a'') 5 = Some (one_attached E)"
proof -
  let ?t = "linked E empty_registry [] 0 ''a''"
  have eq: "?t\<lparr>cells := (cells ?t)(0 \<mapsto> (new_device E 0 0 ''a'')\<lparr>machine := Some 5\<rparr>)\<rparr>
              = one_attached E"
  proof (rule machine_state.equality)
    show "cells (?t\<lparr>cells := (cells ?t)(0 \<mapsto> (new_device E 0 0 ''a'')\<lparr>machine := Some 5\<rparr>)\<rparr>)
            = cells (one_attached E)"
      by (rule ext) (simp add: cells_first_device one_attached_def)
  qed (simp_all add: one_attached_def empty_registry_def)
  have n0: "next (new_device E 0 0 ''a'') = None" by (simp add: new_device_def Let_def)
  have "attach_loop ?t (Some 0) 5 = attach_loop (one_attached E) None 5"
    by (subst attach_loop.simps) (simp add: cells_first_device n0 eq)
  also have "\<dots> = Some (one_attached E)"
    by (subst attach_loop.simps) simp
  finally show ?thesis by (simp add: device_list_attach_machine_def brk_empty_registry)
qed

lemma add_second_device:
  assumes wc: "DEVICE_TYPE_WILDCARD E \<noteq> Some 0"
  shows "device_list_add E (linked E empty_registry [] 0 ''a'') (Some 0) ''b'' =
           Some (Inr 1, linked E (linked E empty_registry [] 0 ''a'') [0] 0 ''b'')"
proof -
  have reg: "registry (linked E empty_registry [] 0 ''a'') [0]"
    using registry_linked [OF registry_empty, of E 0 "''a''"] by (simp add: empty_registry_def)
  have fresh: "\<forall>a \<in> set [0]. key_of (linked E empty_registry [] 0 ''a'') a \<noteq> Some (Some 0, ''b'')"
    by (simp add: key_of_linked empty_registry_def)
  from device_list_add_linked [OF reg _ fresh, of E] wc show ?thesis
    by (simp add: empty_registry_def)
qed

lemma cells_second_device:
  "cells (linked E (linked E empty_registry [] 0 ''a'') [0] 0 ''b'') x =
     (if x = 0 then Some ((new_device E 0 0 ''a'')\<lparr>next := Some 1, typenext := Some 1\<rparr>)
      else if x = 1 then Some (new_device E 0 1 ''b'') else None)"
proof -
  have b: "brk (linked E empty_registry [] 0 ''a'') = 1" by (simp add: brk_empty_registry)
  have ot: "of_type (cells (linked E empty_registry [] 0 ''a'')) (Some 0) [0] = [0]"
    by (simp add: of_type_Cons cells_first_device new_device_def Let_def)
  show ?thesis
    by (simp add: cells_linked [of E "linked E empty_registry [] 0 ''a''"] b ot cells_first_device
          brk_empty_registry)
qed

lemma attach_two_devices:
  "device_list_attach_machine (linked E (linked E empty_registry [] 0 ''a'') [0] 0 ''b'') 5 =
     Some (two_attached E)"
proof -
  let ?t = "linked E (linked E empty_registry [] 0 ''a'') [0] 0 ''b''"
  let ?d0 = "(new_device E 0 0 ''a'')\<lparr>next := Some 1, typenext := Some 1\<rparr>"
  let ?d1 = "new_device E 0 1 ''b''"
  let ?t1 = "?t\<lparr>cells := (cells ?t)(0 \<mapsto> ?d0\<lparr>machine := Some 5\<rparr>)\<rparr>"
  have eq: "?t1\<lparr>cells := (cells ?t1)(1 \<mapsto> ?d1\<lparr>machine := Some 5\<rparr>)\<rparr> = two_attached E"
  proof (rule machine_state.equality)
    show "cells (?t1\<lparr>cells := (cells ?t1)(1 \<mapsto> ?d1\<lparr>machine := Some 5\<rparr>)\<rparr>)
            = cells (two_attached E)"
      by (rule ext) (simp add: cells_second_device two_attached_def)
  qed (simp_all add: two_attached_def empty_registry_def)
  have n1: "next (new_device E 0 a tg) = None" for a tg by (simp add: new_device_def Let_def)
  have "attach_loop ?t (Some 0) 5 = attach_loop ?t1 (Some 1) 5"
    by (subst attach_loop.simps) (simp add: cells_second_device)
  also have "\<dots> = attach_loop (?t1\<lparr>cells := (cells ?t1)(1 \<mapsto> ?d1\<lparr>machine := Some 5\<rparr>)\<rparr>) None 5"
    by (subst attach_loop.simps) (simp add: cells_second_device n1)
  also have "\<dots> = attach_loop (two_attached E) None 5"
    by (simp only: eq)
  also have "\<dots> = Some (two_attached E)"
    by (subst attach_loop.simps) simp
  finally show ?thesis by (simp add: device_list_attach_machine_def brk_empty_registry)
qed

subsection \<open>Starting the devices\<close>

lemma callbacks_fields [simp]:
  "devicelist (add_exit_callback s c) = devicelist s"
  "devicelist (add_reset_callback s c) = devicelist s"
  "cells (add_exit_callback s c) = cells s"
  "cells (add_reset_callback s c) = cells s"
  "blocks (add_exit_callback s c) = blocks s"
  "blocks (add_reset_callback s c) = blocks s"
  "brk (add_exit_callback s c) = brk s"
  "brk (add_reset_callback s c) = brk s"
  "frees (add_exit_callback s c) = frees s"
  "frees (add_reset_callback s c) = frees s"
  by (simp_all add: add_exit_callback_def add_reset_callback_def)

text \<open>
  Claim C10. On a machine with an empty device list \<^verbatim>\<open>device_list_start\<close> returns
  without an error and without a pass of the \<^verbatim>\<open>while\<close> loop; it has only registered
  its two callbacks.
\<close>

theorem start_empty_list:
  "device_list_start E m (s\<lparr>devicelist := None\<rparr>) =
     Some (Inr 0, add_exit_callback (add_reset_callback (s\<lparr>devicelist := None\<rparr>) Device_list_reset)
                    Device_list_stop)"
proof -
  let ?s0 = "add_exit_callback (add_reset_callback (s\<lparr>devicelist := None\<rparr>) Device_list_reset)
                    Device_list_stop"
  have a: "start_alloc_loop E m ?s0 None 0 = Some (Inr 0, ?s0)"
    by (subst start_alloc_loop.simps) simp
  have l: "start_loop E ?s0 0 0 0 = Some (Inr 0, ?s0)"
    by (subst start_loop.simps) simp
  have d: "devicelist ?s0 = None" by simp
  show ?thesis
    unfolding device_list_start_def Let_def d a using l by simp
qed

lemma with_token_fields [simp]:
  "next (with_token E m f t d) = next d"
  "typenext (with_token E m f t d) = typenext d"
  "type (with_token E m f t d) = type d"
  "tag (with_token E m f t d) = tag d"
  "started (with_token E m f t d) = started d"
  "token (with_token E m f t d) = Some t"
  "machine (with_token E m f t d) = Some m"
  "tokenbytes (with_token E m f t d) = ucast (DEVINFO_INT_TOKEN_BYTES (type_query E f))"
  by (simp_all add: with_token_def)

lemma start_allocate_startable:
  assumes "startable E m s a"
  shows "\<exists>d f. cells s a = Some d \<and> type d = Some f \<and>
           start_allocate E m s a =
             Some (Inr (), s\<lparr> brk := Suc (brk s),
                               blocks := (blocks s)(brk s \<mapsto>
                                  replicate (unat (ucast (DEVINFO_INT_TOKEN_BYTES (type_query E f)) :: 32 word)) 0),
                               cells := (cells s)(a \<mapsto> with_token E m f (brk s) d) \<rparr>)"
proof -
  from assms obtain d f where d: "cells s a = Some d" "\<not> started d" "token d = None"
    "machine d = Some m" "type d = Some f"
    "(ucast (DEVINFO_INT_TOKEN_BYTES (type_query E f)) :: 32 word) \<noteq> 0"
    by (auto simp: startable_def split: option.splits)
  then show ?thesis
    by (simp add: start_allocate_def assert_fails_def Let_def malloc_or_die_def with_token_def)
qed

lemma allocated_Cons:
  assumes d0: "cells s a = Some d0" and f: "type d0 = Some f" and nin: "a \<notin> set as"
    and al: "allocated E m
               (s\<lparr> brk := Suc (brk s), blocks := (blocks s)(brk s \<mapsto> bs),
                   cells := (cells s)(a \<mapsto> with_token E m f (brk s) d0) \<rparr>) as s'"
  shows "allocated E m s (a # as) s'"
  unfolding allocated_def
proof (intro conjI allI impI)
  let ?s1 = "s\<lparr> brk := Suc (brk s), blocks := (blocks s)(brk s \<mapsto> bs),
                 cells := (cells s)(a \<mapsto> with_token E m f (brk s) d0) \<rparr>"
  show "devicelist s' = devicelist s" "frees s' = frees s"
    "reset_callbacks s' = reset_callbacks s" "exit_callbacks s' = exit_callbacks s"
    "brk s' = brk s + length (a # as)"
    using al by (simp_all add: allocated_def)
  {
    fix x assume "x \<notin> set (a # as)"
    then show "cells s' x = cells s x" using al by (simp add: allocated_def)
  next
    fix i assume i: "i < length (a # as)"
    show "\<exists>d f. cells s ((a # as) ! i) = Some d \<and> type d = Some f \<and>
          cells s' ((a # as) ! i) = Some (with_token E m f (brk s + i) d)"
    proof (cases i)
      case 0
      have "cells s' a = cells ?s1 a" using al nin by (simp add: allocated_def)
      then show ?thesis using 0 d0 f by simp
    next
      case (Suc j)
      then have j: "j < length as" using i by simp
      then have ne: "as ! j \<noteq> a" using nin nth_mem by metis
      have "\<exists>d f. cells ?s1 (as ! j) = Some d \<and> type d = Some f \<and>
          cells s' (as ! j) = Some (with_token E m f (brk ?s1 + j) d)"
        using al j unfolding allocated_def by blast
      then obtain d g where "cells ?s1 (as ! j) = Some d" "type d = Some g"
        "cells s' (as ! j) = Some (with_token E m g (brk ?s1 + j) d)" by blast
      then show ?thesis using ne Suc by simp
    qed
  next
    fix i assume i: "i < length (a # as)"
    show "blocks s' (brk s + i) \<noteq> None"
    proof (cases i)
      case 0
      have "blocks s' (brk s) = blocks ?s1 (brk s)" using al by (simp add: allocated_def)
      then show ?thesis using 0 by simp
    next
      case (Suc j)
      then have j: "j < length as" using i by simp
      have "\<forall>i < length as. blocks s' (brk ?s1 + i) \<noteq> None"
        using al unfolding allocated_def by blast
      then have "blocks s' (brk ?s1 + j) \<noteq> None" using j by blast
      then show ?thesis using Suc by simp
    qed
  next
    fix t assume "t < brk s"
    then show "blocks s' t = blocks s t" using al by (simp add: allocated_def)
  }
qed

lemma start_alloc_loop_chain:
  assumes "chain (cells s) p as" "\<forall>a \<in> set as. startable E m s a"
  shows "\<exists>s'. start_alloc_loop E m s p c = Some (Inr (c + int (length as)), s') \<and>
              allocated E m s as s'"
  using assms
proof (induction as arbitrary: s p c)
  case Nil
  then show ?case
    by (subst start_alloc_loop.simps) (simp add: allocated_def)
next
  case (Cons a as)
  from Cons.prems(1) obtain d0 where p: "p = Some a" and d0: "cells s a = Some d0"
    and ch: "chain (cells s) (next d0) as" by auto
  have nin: "a \<notin> set as" using chain_head_notin [OF Cons.prems(1)] .
  from start_allocate_startable [of E m s a] Cons.prems(2) d0 obtain f where f: "type d0 = Some f"
    and step: "start_allocate E m s a =
             Some (Inr (), s\<lparr> brk := Suc (brk s),
                               blocks := (blocks s)(brk s \<mapsto>
                                  replicate (unat (ucast (DEVINFO_INT_TOKEN_BYTES (type_query E f)) :: 32 word)) 0),
                               cells := (cells s)(a \<mapsto> with_token E m f (brk s) d0) \<rparr>)"
    by auto
  let ?s1 = "s\<lparr> brk := Suc (brk s),
                 blocks := (blocks s)(brk s \<mapsto>
                    replicate (unat (ucast (DEVINFO_INT_TOKEN_BYTES (type_query E f)) :: 32 word)) 0),
                 cells := (cells s)(a \<mapsto> with_token E m f (brk s) d0) \<rparr>"
  have ch1: "chain (cells ?s1) (next d0) as"
    using ch nin by (simp add: chain_cong [of as "(cells s)(a \<mapsto> with_token E m f (brk s) d0)" "cells s"])
  have st1: "\<forall>b \<in> set as. startable E m ?s1 b"
    using Cons.prems(2) nin by (auto simp: startable_def)
  from Cons.IH [OF ch1 st1, of "c + 1"] obtain s' where
    loop: "start_alloc_loop E m ?s1 (next d0) (c + 1) = Some (Inr (c + 1 + int (length as)), s')"
    and al: "allocated E m ?s1 as s'" by blast
  have unf: "start_alloc_loop E m s p c = start_alloc_loop E m ?s1 (next d0) (c + 1)"
    by (subst start_alloc_loop.simps) (simp add: p step)
  have res: "start_alloc_loop E m s p c = Some (Inr (c + int (length (a # as))), s')"
    using unf loop by (simp add: add.assoc)
  have "allocated E m s (a # as) s'"
    using d0 f nin al by (rule allocated_Cons)
  with res show ?case by blast
qed

lemma allocated_member:
  assumes "allocated E m s as s'" "a \<in> set as"
  shows "\<exists>d f t. cells s a = Some d \<and> type d = Some f \<and> brk s \<le> t \<and> t < brk s' \<and>
           blocks s' t \<noteq> None \<and> cells s' a = Some (with_token E m f t d)"
proof -
  from assms(2) obtain i where i: "i < length as" "as ! i = a"
    by (auto simp: in_set_conv_nth)
  have 1: "\<exists>d f. cells s (as ! i) = Some d \<and> type d = Some f \<and>
          cells s' (as ! i) = Some (with_token E m f (brk s + i) d)"
    using assms(1) i(1) unfolding allocated_def by blast
  have 2: "blocks s' (brk s + i) \<noteq> None"
    using assms(1) i(1) unfolding allocated_def by blast
  have 3: "brk s' = brk s + length as" using assms(1) unfolding allocated_def by blast
  from 1 obtain d f where "cells s a = Some d" "type d = Some f"
    "cells s' a = Some (with_token E m f (brk s + i) d)" using i(2) by auto
  then show ?thesis using 2 3 i(1)
    by (intro exI [of _ d] exI [of _ f] exI [of _ "brk s + i"]) simp
qed

lemma allocated_next:
  assumes "allocated E m s as s'"
  shows "map_option next (cells s' a) = map_option next (cells s a)"
proof (cases "a \<in> set as")
  case True
  from allocated_member [OF assms True] show ?thesis by auto
next
  case False
  then show ?thesis using assms by (simp add: allocated_def)
qed

lemma allocated_chain:
  "allocated E m s as s' \<Longrightarrow> chain (cells s') p bs = chain (cells s) p bs"
  using allocated_next by (intro chain_cong) blast

lemma start_device_never:
  assumes "never_starts E s a" "\<not> started_at s a"
  shows "start_device E s a = Some (Inr (), s)"
proof -
  from assms obtain d f h where "cells s a = Some d" "type d = Some f"
    "DEVINFO_FCT_START (type_query E f) = Some h" "\<forall>s' a'. h s' a' \<noteq> DEVICE_START_OK"
    "\<not> started d"
    by (auto simp: never_starts_def started_at_def split: option.splits)
  then show ?thesis
    by (simp add: start_device_def device_get_info_fct_def assert_fails_def)
qed

lemma start_sweep_never:
  assumes "chain (cells s) p as" "\<forall>a \<in> set as. never_starts E s a \<and> \<not> started_at s a"
  shows "start_sweep E s p c = Some (Inr c, s)"
  using assms
proof (induction as arbitrary: p c)
  case Nil
  then show ?case by (subst start_sweep.simps) simp
next
  case (Cons a as)
  from Cons.prems(1) obtain d where p: "p = Some a" and d: "cells s a = Some d"
    and ch: "chain (cells s) (next d) as" by auto
  have step: "start_device E s a = Some (Inr (), s)"
    using start_device_never Cons.prems(2) by simp
  have ns: "\<not> started d" using Cons.prems(2) d by (simp add: started_at_def)
  have "start_sweep E s p c = start_sweep E s (next d) c"
    by (subst start_sweep.simps) (simp add: p step d ns)
  then show ?case using Cons.IH [OF ch] Cons.prems(2) by simp
qed

text \<open>
  Claim C1, amended. On a machine with at least one device, whose devices are as
  \<^verbatim>\<open>device_list_add\<close> and \<^verbatim>\<open>device_list_attach_machine\<close> leave them, whose types
  declare a token size that is not zero, and whose start functions never report
  success, \<^verbatim>\<open>device_list_start\<close> terminates: it ends with the fatal error for a
  circular dependency, which names all devices as unstarted out of all devices.
\<close>

theorem start_without_progress_is_fatal:
  assumes "chain (cells s) (devicelist s) as" "as \<noteq> []"
    and "\<forall>a \<in> set as. startable E m s a \<and> never_starts E s a"
  shows "\<exists>s'. device_list_start E m s =
           Some (Inl (Circular_dependency (int (length as)) (int (length as))), s')"
proof -
  let ?s0 = "add_exit_callback (add_reset_callback s Device_list_reset) Device_list_stop"
  have ch0: "chain (cells ?s0) (devicelist ?s0) as" using assms(1) by simp
  have st0: "\<forall>a \<in> set as. startable E m ?s0 a" using assms(3) by (simp add: startable_def)
  from start_alloc_loop_chain [OF ch0 st0, of 0] obtain s1 where
    al: "start_alloc_loop E m ?s0 (devicelist ?s0) 0 = Some (Inr (int (length as)), s1)"
    and a1: "allocated E m ?s0 as s1" by auto
  have dl: "devicelist s1 = devicelist s" using a1 by (simp add: allocated_def)
  have ch1: "chain (cells s1) (devicelist s1) as"
    using allocated_chain [OF a1] assms(1) dl by simp
  have ns1: "\<forall>a \<in> set as. never_starts E s1 a \<and> \<not> started_at s1 a"
  proof
    fix a assume a: "a \<in> set as"
    from allocated_member [OF a1 a] obtain d f t where
      d: "cells s a = Some d" "type d = Some f" "cells s1 a = Some (with_token E m f t d)"
      by auto
    have "never_starts E s a" "\<not> started d"
      using assms(3) a d by (auto simp: startable_def)
    then show "never_starts E s1 a \<and> \<not> started_at s1 a"
      using d by (simp add: never_starts_def started_at_def)
  qed
  have sw: "start_sweep E s1 (devicelist s1) 0 = Some (Inr 0, s1)"
    using start_sweep_never [OF ch1 ns1] .
  have pos: "(0::int) < int (length as)" using assms(2) by simp
  have "start_loop E s1 0 (int (length as)) 0 =
      Some (Inl (Circular_dependency (int (length as)) (int (length as))), s1)"
    using assms(2) by (subst start_loop.simps) (simp add: sw)
  then show ?thesis
    unfolding device_list_start_def Let_def al by simp
qed


lemma chain_two_attached: "chain (cells (two_attached E)) (devicelist (two_attached E)) [0, 1]"
  by (simp add: two_attached_def new_device_def Let_def)

lemma stuck_env_fields:
  "type_query stuck_env f = test_type\<lparr> DEVINFO_FCT_START := Some (\<lambda>s a. DEVICE_START_MISSING_DEPENDENCY) \<rparr>"
  "MAME_DEBUG stuck_env" "DEVICE_TYPE_WILDCARD stuck_env = None"
  by (simp_all add: stuck_env_def test_env_def)

theorem start_without_progress_is_fatal_witness:
  "\<exists>s'. device_list_start stuck_env 5 (two_attached stuck_env) =
          Some (Inl (Circular_dependency 2 2), s')"
proof -
  have "\<forall>a \<in> set [0, 1]. startable stuck_env 5 (two_attached stuck_env) a \<and>
      never_starts stuck_env (two_attached stuck_env) a"
    by (simp add: startable_def never_starts_def two_attached_def new_device_def Let_def
        stuck_env_fields test_type_def)
  from start_without_progress_is_fatal [OF chain_two_attached _ this]
  show ?thesis by simp
qed

text \<open>
  Claim C1 as stated fails for a device type that declares a token of zero bytes:
  \<^verbatim>\<open>device_list_start\<close> then ends in its first loop with the fatal error for a zero
  token length, before any start function is called.
\<close>

theorem zero_token_before_circular:
  "map_option fst (device_list_start zero_env 5 (one_attached zero_env)) =
     Some (Inl (Zero_token_length 0))"
proof -
  let ?s0 = "add_exit_callback (add_reset_callback (one_attached zero_env) Device_list_reset)
      Device_list_stop"
  have c: "cells (one_attached zero_env) 0 = Some ((new_device zero_env 0 0 ''a'')\<lparr>machine := Some 5\<rparr>)"
    "devicelist (one_attached zero_env) = Some 0"
    by (simp_all add: one_attached_def)
  have q: "DEVINFO_INT_TOKEN_BYTES (type_query zero_env 0) = 0"
    by (simp add: zero_env_def test_env_def test_type_def)
  have "\<exists>s1. start_allocate zero_env 5 ?s0 0 = Some (Inl (Zero_token_length 0), s1)"
    by (simp add: start_allocate_def c assert_fails_def new_device_def Let_def q)
  then obtain s1 where "start_allocate zero_env 5 ?s0 0 = Some (Inl (Zero_token_length 0), s1)"
    by blast
  then have "start_alloc_loop zero_env 5 ?s0 (Some 0) 0 = Some (Inl (Zero_token_length 0), s1)"
    by (subst start_alloc_loop.simps) simp
  then show ?thesis
    unfolding device_list_start_def Let_def by (simp add: c)
qed

subsection \<open>The passes of the start loop\<close>

lemma mark_fields [simp]:
  "devicelist (mark s A) = devicelist s"
  "blocks (mark s A) = blocks s"
  "brk (mark s A) = brk s"
  "frees (mark s A) = frees s"
  "reset_callbacks (mark s A) = reset_callbacks s"
  "exit_callbacks (mark s A) = exit_callbacks s"
  "machine_state.more (mark s A) = machine_state.more s"
  by (simp_all add: mark_def)

lemma cells_mark:
  "cells (mark s A) x =
     (if x \<in> A then map_option (\<lambda>d. d\<lparr>started := True\<rparr>) (cells s x) else cells s x)"
  by (simp add: mark_def)

lemma mark_empty [simp]: "mark s {} = s"
  by (simp add: mark_def)

lemma mark_insert:
  assumes "cells (mark s A) a = Some d"
  shows "(mark s A)\<lparr>cells := (cells (mark s A))(a \<mapsto> d\<lparr>started := True\<rparr>)\<rparr> = mark s (insert a A)"
proof -
  have c: "(cells (mark s A))(a \<mapsto> d\<lparr>started := True\<rparr>) = cells (mark s (insert a A))"
  proof (rule ext)
    fix x
    show "((cells (mark s A))(a \<mapsto> d\<lparr>started := True\<rparr>)) x = cells (mark s (insert a A)) x"
      using assms by (cases "cells s a") (auto simp: cells_mark split: if_splits)
  qed
  show ?thesis
    by (rule machine_state.equality) (simp_all add: c)
qed

lemma mark_chain: "chain (cells (mark s A)) p as = chain (cells s) p as"
  by (rule chain_cong) (simp add: cells_mark option.map_comp o_def)

lemma started_at_mark:
  "started_at (mark s A) b = (started_at s b \<or> (b \<in> A \<and> cells s b \<noteq> None))"
  by (auto simp: started_at_def cells_mark split: option.splits)

lemma sweep_set_mono: "A \<subseteq> sweep_set r A"
proof (induction r arbitrary: A)
  case Nil
  then show ?case by simp
next
  case (Cons x r)
  obtain a dep where x: "x = (a, dep)" by (cases x)
  show ?case using Cons.IH [of "insert a A"] Cons.IH [of A] by (auto simp: x)
qed

lemma sweep_set_upper: "sweep_set r A \<subseteq> A \<union> fst ` set r"
proof (induction r arbitrary: A)
  case Nil
  then show ?case by simp
next
  case (Cons x r)
  obtain a dep where x: "x = (a, dep)" by (cases x)
  show ?case using Cons.IH [of "insert a A"] Cons.IH [of A] by (auto simp: x)
qed

lemma start_device_mark:
  assumes "ready E s a dep"
  shows "start_device E (mark s A) a =
     Some (Inr (), mark s (if a \<in> A \<or> (case dep of None \<Rightarrow> True | Some b \<Rightarrow> b \<in> A)
                           then insert a A else A))"
proof -
  from assms obtain d f h where d: "cells s a = Some d" "type d = Some f"
    "DEVINFO_FCT_START (type_query E f) = Some h" "\<not> started d"
    and h: "\<forall>s'. (h s' a = DEVICE_START_OK) =
              (case dep of None \<Rightarrow> True | Some b \<Rightarrow> started_at s' b)"
    by (auto simp: ready_def starts_after_def started_at_def split: option.splits)
  have dep: "(case dep of None \<Rightarrow> True | Some b \<Rightarrow> started_at (mark s A) b) =
      (case dep of None \<Rightarrow> True | Some b \<Rightarrow> b \<in> A)"
    using assms by (auto simp: ready_def started_at_mark split: option.splits)
  show ?thesis
  proof (cases "a \<in> A")
    case True
    then have "cells (mark s A) a = Some (d\<lparr>started := True\<rparr>)" using d by (simp add: cells_mark)
    moreover have "insert a A = A" using True by auto
    ultimately show ?thesis using d True
      by (simp add: start_device_def device_get_info_fct_def assert_fails_def)
  next
    case False
    then have c: "cells (mark s A) a = Some d" using d by (simp add: cells_mark)
    show ?thesis
    proof (cases "case dep of None \<Rightarrow> True | Some b \<Rightarrow> b \<in> A")
      case True
      then have "h (mark s A) a = DEVICE_START_OK" using h dep by simp
      then show ?thesis using c d True False mark_insert [OF c]
        by (simp add: start_device_def device_get_info_fct_def assert_fails_def)
    next
      case nd: False
      then have "h (mark s A) a \<noteq> DEVICE_START_OK" using h dep by simp
      then show ?thesis using c d nd False
        by (simp add: start_device_def device_get_info_fct_def assert_fails_def)
    qed
  qed
qed

lemma start_sweep_mark:
  assumes "chain (cells s) p as" "length deps = length as"
    "\<forall>(a, dep) \<in> set (zip as deps). ready E s a dep"
  shows "start_sweep E (mark s A) p c =
     Some (Inr (c + int (length (filter (\<lambda>a. a \<in> sweep_set (zip as deps) A) as))),
           mark s (sweep_set (zip as deps) A))"
  using assms
proof (induction as arbitrary: p c A deps)
  case Nil
  then show ?case by (subst start_sweep.simps) simp
next
  case (Cons a as)
  from Cons.prems(2) obtain dep deps' where deps: "deps = dep # deps'"
    and len: "length deps' = length as" by (cases deps) auto
  from Cons.prems(1) obtain d where p: "p = Some a" and d: "cells s a = Some d"
    and ch: "chain (cells s) (next d) as" by auto
  have nin: "a \<notin> set as" using chain_head_notin [OF Cons.prems(1)] .
  have rdy: "ready E s a dep" using Cons.prems(3) deps by simp
  have rest: "\<forall>(a, dep) \<in> set (zip as deps'). ready E s a dep"
    using Cons.prems(3) deps by simp
  let ?A1 = "if a \<in> A \<or> (case dep of None \<Rightarrow> True | Some b \<Rightarrow> b \<in> A) then insert a A else A"
  let ?A' = "sweep_set (zip as deps') ?A1"
  have step: "start_device E (mark s A) a = Some (Inr (), mark s ?A1)"
    using start_device_mark [OF rdy] .
  have ns: "\<not> started d" using rdy d by (simp add: ready_def started_at_def)
  have c1: "\<exists>d1. cells (mark s ?A1) a = Some d1 \<and> next d1 = next d \<and> started d1 = (a \<in> ?A1)"
    using d ns by (simp add: cells_mark)
  then obtain d1 where d1: "cells (mark s ?A1) a = Some d1" "next d1 = next d"
    "started d1 = (a \<in> ?A1)" by blast
  have unf: "start_sweep E (mark s A) p c =
      start_sweep E (mark s ?A1) (next d) (c + (if a \<in> ?A1 then 1 else 0))"
    by (subst start_sweep.simps) (simp add: p step d1 del: cells_mark)
  have mem: "(a \<in> ?A') = (a \<in> ?A1)"
  proof -
    have "?A1 \<subseteq> ?A'" by (rule sweep_set_mono)
    moreover have "?A' \<subseteq> ?A1 \<union> fst ` set (zip as deps')" by (rule sweep_set_upper)
    moreover have "a \<notin> fst ` set (zip as deps')" using nin by (auto dest: set_zip_leftD)
    ultimately show ?thesis by blast
  qed
  have ss: "sweep_set (zip (a # as) deps) A = ?A'" by (simp add: deps)
  have cnt: "int (length (filter (\<lambda>x. x \<in> ?A') (a # as))) =
      (if a \<in> ?A1 then 1 else 0) + int (length (filter (\<lambda>x. x \<in> ?A') as))"
    using mem by simp
  show ?case
    unfolding ss unf
    using Cons.IH [OF ch len rest, of ?A1 "c + (if a \<in> ?A1 then 1 else 0)"] cnt
    by (simp only: add.assoc)
qed

lemma sweep_set_idle: "fst ` set r \<subseteq> A \<Longrightarrow> sweep_set r A = A"
proof (induction r arbitrary: A)
  case Nil
  then show ?case by simp
next
  case (Cons x r)
  obtain a dep where x: "x = (a, dep)" by (cases x)
  have "a \<in> A" using Cons.prems x by simp
  then have "insert a A = A" by auto
  then show ?case using Cons x by simp
qed

lemma sweep_in_order:
  "(case dep0 of None \<Rightarrow> True | Some b \<Rightarrow> b \<in> A) \<Longrightarrow>
   sweep_set (zip (a # as) (dep0 # map Some (butlast (a # as)))) A = A \<union> set (a # as)"
proof (induction as arbitrary: a A dep0)
  case Nil
  then show ?case by simp
next
  case (Cons b bs)
  have "sweep_set (zip (a # b # bs) (dep0 # map Some (butlast (a # b # bs)))) A =
      sweep_set (zip (b # bs) (Some a # map Some (butlast (b # bs)))) (insert a A)"
    using Cons.prems by simp
  also have "\<dots> = insert a A \<union> set (b # bs)"
    by (rule Cons.IH) simp
  finally show ?case by auto
qed

lemma rev_deps_simps:
  "rev_deps [x] = [None]" "rev_deps (x # y # r) = Some y # rev_deps (y # r)"
  by (simp_all add: rev_deps_def)

lemma length_rev_deps: "as \<noteq> [] \<Longrightarrow> length (rev_deps as) = length as"
  by (cases as) (simp_all add: rev_deps_def)

lemma length_in_deps: "as \<noteq> [] \<Longrightarrow> length (in_deps as) = length as"
  by (cases as) (simp_all add: in_deps_def)

lemma fst_zip_subset: "fst ` set (zip xs ys) \<subseteq> set xs"
  by (auto dest: set_zip_leftD)

lemma sweep_reverse:
  assumes "distinct (xs @ ys)" "xs \<noteq> []"
  shows "sweep_set (zip (xs @ ys) (rev_deps (xs @ ys))) (set ys) = insert (last xs) (set ys)"
  using assms
proof (induction xs)
  case Nil
  then show ?case by simp
next
  case (Cons x xs)
  show ?case
  proof (cases xs)
    case Nil
    have rest: "sweep_set (zip ys (tl (rev_deps (x # ys)))) (insert x (set ys)) = insert x (set ys)"
      by (rule sweep_set_idle) (use fst_zip_subset [of ys] in auto)
    show ?thesis
    proof (cases ys)
      case n: Nil
      then show ?thesis using Nil by (simp add: rev_deps_simps)
    next
      case (Cons y ys')
      then show ?thesis using Nil rest by (simp add: rev_deps_simps)
    qed
  next
    case (Cons x' xs')
    have "x \<notin> set ys" "x' \<notin> set ys" using Cons.prems(1) Cons by auto
    then have "sweep_set (zip ((x # xs) @ ys) (rev_deps ((x # xs) @ ys))) (set ys) =
        sweep_set (zip (xs @ ys) (rev_deps (xs @ ys))) (set ys)"
      using Cons by (simp add: rev_deps_simps)
    also have "\<dots> = insert (last xs) (set ys)"
      using Cons.IH Cons.prems(1) Cons by simp
    finally show ?thesis using Cons by simp
  qed
qed

lemma start_loop_done:
  "start_loop E s n n k = Some (Inr k, s)"
  by (subst start_loop.simps) simp

lemma start_loop_reverse:
  assumes "chain (cells s) (devicelist s) (xs @ ys)"
    "\<forall>(a, dep) \<in> set (zip (xs @ ys) (rev_deps (xs @ ys))). ready E s a dep"
  shows "start_loop E (mark s (set ys)) (int (length ys)) (int (length (xs @ ys))) k =
           Some (Inr (k + length xs), mark s (set (xs @ ys)))"
  using assms
proof (induction xs arbitrary: ys k rule: rev_induct)
  case Nil
  then show ?case using start_loop_done by simp
next
  case (snoc x xs)
  let ?as = "(xs @ [x]) @ ys"
  have dist: "distinct ?as" using chain_distinct [OF snoc.prems(1)] .
  have len: "length (rev_deps ?as) = length ?as" by (rule length_rev_deps) simp
  have ss: "sweep_set (zip ?as (rev_deps ?as)) (set ys) = set (x # ys)"
    using sweep_reverse [OF dist] by simp
  have cnt: "length (filter (\<lambda>a. a \<in> set (x # ys)) ?as) = Suc (length ys)"
  proof -
    have "filter (\<lambda>a. a \<in> set (x # ys)) xs = []" using dist by (auto simp: filter_empty_conv)
    moreover have "filter (\<lambda>a. a \<in> set (x # ys)) (x # ys) = x # ys" by (simp add: filter_id_conv)
    ultimately show ?thesis by simp
  qed
  have sw: "start_sweep E (mark s (set ys)) (devicelist s) 0 =
      Some (Inr (int (Suc (length ys))), mark s (set (x # ys)))"
    using start_sweep_mark [OF snoc.prems(1) len snoc.prems(2), of "set ys" 0] ss cnt
    by simp
  have unf: "start_loop E (mark s (set ys)) (int (length ys)) (int (length ?as)) k =
      start_loop E (mark s (set (x # ys))) (int (length (x # ys))) (int (length ?as)) (Suc k)"
    by (subst start_loop.simps) (simp add: sw)
  have ch': "chain (cells s) (devicelist s) (xs @ x # ys)" using snoc.prems(1) by simp
  have rd': "\<forall>(a, dep) \<in> set (zip (xs @ x # ys) (rev_deps (xs @ x # ys))). ready E s a dep"
    using snoc.prems(2) by simp
  show ?case
    unfolding unf using snoc.IH [OF ch' rd', of "Suc k"] by simp
qed

subsection \<open>Chains of dependencies\<close>

lemma starts_after_cong:
  "map_option type (cells s' a) = map_option type (cells s a) \<Longrightarrow>
   starts_after E s' a dep = starts_after E s a dep"
  by (cases "cells s a"; cases "cells s' a") (auto simp: starts_after_def)

lemma allocated_type:
  assumes "allocated E m s as s'"
  shows "map_option type (cells s' a) = map_option type (cells s a)"
proof (cases "a \<in> set as")
  case True
  from allocated_member [OF assms True] show ?thesis by auto
next
  case False
  then show ?thesis using assms by (simp add: allocated_def)
qed

lemma allocated_unstarted:
  assumes "allocated E m s as s'" "a \<in> set as" "startable E m s a"
  shows "cells s' a \<noteq> None \<and> \<not> started_at s' a"
proof -
  from allocated_member [OF assms(1,2)] obtain d f t where
    "cells s a = Some d" "cells s' a = Some (with_token E m f t d)" by blast
  then show ?thesis using assms(3) by (auto simp: startable_def started_at_def)
qed

lemma in_deps_range:
  assumes "(a, dep) \<in> set (zip as (in_deps as))"
  shows "a \<in> set as \<and> (case dep of None \<Rightarrow> True | Some b \<Rightarrow> b \<in> set as)"
proof -
  have a: "a \<in> set as" using assms by (rule set_zip_leftD)
  have "dep \<in> set (in_deps as)" using assms by (rule set_zip_rightD)
  then have "dep = None \<or> (\<exists>b \<in> set (butlast as). dep = Some b)"
    by (auto simp: in_deps_def)
  then have "case dep of None \<Rightarrow> True | Some b \<Rightarrow> b \<in> set as"
    by (auto dest: in_set_butlastD)
  with a show ?thesis by simp
qed

lemma rev_deps_range:
  assumes "(a, dep) \<in> set (zip as (rev_deps as))"
  shows "a \<in> set as \<and> (case dep of None \<Rightarrow> True | Some b \<Rightarrow> b \<in> set as)"
proof -
  have a: "a \<in> set as" using assms by (rule set_zip_leftD)
  have "dep \<in> set (rev_deps as)" using assms by (rule set_zip_rightD)
  then have "dep = None \<or> (\<exists>b \<in> set (tl as). dep = Some b)"
    by (auto simp: rev_deps_def)
  then have "case dep of None \<Rightarrow> True | Some b \<Rightarrow> b \<in> set as"
    by (cases as) auto
  with a show ?thesis by simp
qed

lemma ready_after_allocation:
  assumes al: "allocated E m s as s1" and st: "\<forall>a \<in> set as. startable E m s a"
    and sa: "list_all2 (starts_after E s) as deps"
    and rg: "\<forall>(a, dep) \<in> set (zip as deps).
                a \<in> set as \<and> (case dep of None \<Rightarrow> True | Some b \<Rightarrow> b \<in> set as)"
  shows "\<forall>(a, dep) \<in> set (zip as deps). ready E s1 a dep"
proof (clarify)
  fix a dep assume z: "(a, dep) \<in> set (zip as deps)"
  have "starts_after E s a dep" using sa z by (auto simp: list_all2_iff)
  then have 1: "starts_after E s1 a dep"
    using starts_after_cong [OF allocated_type [OF al]] by simp
  have a: "a \<in> set as" using rg z by auto
  have 2: "\<not> started_at s1 a" using allocated_unstarted [OF al a] st a by simp
  have 3: "case dep of None \<Rightarrow> True | Some b \<Rightarrow> cells s1 b \<noteq> None \<and> \<not> started_at s1 b"
  proof (cases dep)
    case None
    then show ?thesis by simp
  next
    case (Some b)
    then have "b \<in> set as" using rg z by auto
    then show ?thesis using allocated_unstarted [OF al] st Some by simp
  qed
  show "ready E s1 a dep" using 1 2 3 by (simp add: ready_def)
qed

lemma start_allocates:
  assumes "chain (cells s) (devicelist s) as" "\<forall>a \<in> set as. startable E m s a"
  shows "\<exists>s0 s1. allocated E m s0 as s1 \<and> cells s0 = cells s \<and> devicelist s0 = devicelist s \<and>
           brk s0 = brk s \<and> blocks s0 = blocks s \<and> frees s0 = frees s \<and>
           chain (cells s1) (devicelist s1) as \<and>
           device_list_start E m s = start_loop E s1 0 (int (length as)) 0"
proof -
  let ?s0 = "add_exit_callback (add_reset_callback s Device_list_reset) Device_list_stop"
  have ch0: "chain (cells ?s0) (devicelist ?s0) as" using assms(1) by simp
  have st0: "\<forall>a \<in> set as. startable E m ?s0 a" using assms(2) by (simp add: startable_def)
  from start_alloc_loop_chain [OF ch0 st0, of 0] obtain s1 where
    al: "start_alloc_loop E m ?s0 (devicelist ?s0) 0 = Some (Inr (int (length as)), s1)"
    and a1: "allocated E m ?s0 as s1" by auto
  have dl: "devicelist s1 = devicelist s" using a1 by (simp add: allocated_def)
  have ch1: "chain (cells s1) (devicelist s1) as"
    using allocated_chain [OF a1] assms(1) dl by simp
  have "device_list_start E m s = start_loop E s1 0 (int (length as)) 0"
    unfolding device_list_start_def Let_def al by simp
  then show ?thesis using a1 ch1
    by (intro exI [of _ ?s0] exI [of _ s1]) simp
qed

lemma start_in_order:
  assumes ch: "chain (cells s) (devicelist s) as" and ne: "as \<noteq> []"
    and st: "\<forall>a \<in> set as. startable E m s a"
    and w: "waits_for_previous E s as"
  shows "\<exists>s'. device_list_start E m s = Some (Inr 1, s') \<and> (\<forall>a \<in> set as. started_at s' a)"
proof -
  from start_allocates [OF ch st] obtain s0 s1 where al: "allocated E m s0 as s1"
    and c0: "cells s0 = cells s" and ch1: "chain (cells s1) (devicelist s1) as"
    and run: "device_list_start E m s = start_loop E s1 0 (int (length as)) 0" by blast
  have st0: "\<forall>a \<in> set as. startable E m s0 a" using st c0 by (simp add: startable_def)
  have sa0: "list_all2 (starts_after E s0) as (in_deps as)"
    using w c0 by (simp add: waits_for_previous_def starts_after_def cong: list.rel_cong)
  have rd: "\<forall>(a, dep) \<in> set (zip as (in_deps as)). ready E s1 a dep"
    using ready_after_allocation [OF al st0 sa0] in_deps_range by blast
  obtain a as' where as: "as = a # as'" using ne by (cases as) auto
  have ss: "sweep_set (zip as (in_deps as)) {} = set as"
    using sweep_in_order [where ?dep0.0 = None and A = "{}" and a = a and as = as']
    by (simp add: as in_deps_def)
  have sw: "start_sweep E s1 (devicelist s1) 0 = Some (Inr (int (length as)), mark s1 (set as))"
    using start_sweep_mark [OF ch1 length_in_deps [OF ne] rd, of "{}" 0] ss
    by (simp add: filter_id_conv)
  have "start_loop E s1 0 (int (length as)) 0 =
      start_loop E (mark s1 (set as)) (int (length as)) (int (length as)) 1"
    using ne by (subst start_loop.simps) (simp add: sw)
  then have res: "device_list_start E m s = Some (Inr 1, mark s1 (set as))"
    using run start_loop_done by simp
  have "\<forall>a \<in> set as. started_at (mark s1 (set as)) a"
    using allocated_unstarted [OF al] st0 by (simp add: started_at_mark)
  with res show ?thesis by blast
qed

lemma start_reverse_order:
  assumes ch: "chain (cells s) (devicelist s) as" and ne: "as \<noteq> []"
    and st: "\<forall>a \<in> set as. startable E m s a"
    and w: "waits_for_next E s as"
  shows "\<exists>s'. device_list_start E m s = Some (Inr (length as), s') \<and>
              (\<forall>a \<in> set as. started_at s' a)"
proof -
  from start_allocates [OF ch st] obtain s0 s1 where al: "allocated E m s0 as s1"
    and c0: "cells s0 = cells s" and ch1: "chain (cells s1) (devicelist s1) as"
    and run: "device_list_start E m s = start_loop E s1 0 (int (length as)) 0" by blast
  have st0: "\<forall>a \<in> set as. startable E m s0 a" using st c0 by (simp add: startable_def)
  have sa0: "list_all2 (starts_after E s0) as (rev_deps as)"
    using w c0 by (simp add: waits_for_next_def starts_after_def cong: list.rel_cong)
  have rd: "\<forall>(a, dep) \<in> set (zip as (rev_deps as)). ready E s1 a dep"
    using ready_after_allocation [OF al st0 sa0] rev_deps_range by blast
  have "start_loop E (mark s1 (set [])) (int (length ([]::addr list))) (int (length (as @ []))) 0 =
           Some (Inr (0 + length as), mark s1 (set (as @ [])))"
    by (rule start_loop_reverse) (use ch1 rd in simp_all)
  then have res: "device_list_start E m s = Some (Inr (length as), mark s1 (set as))"
    using run by simp
  have "\<forall>a \<in> set as. started_at (mark s1 (set as)) a"
    using allocated_unstarted [OF al] st0 by (simp add: started_at_mark)
  with res show ?thesis by blast
qed

lemma env_fields:
  "type_query chain_env f = test_type\<lparr> DEVINFO_FCT_START :=
        Some (\<lambda>s a. if a = 0 \<or> started_at s (a - 1) then DEVICE_START_OK
                     else DEVICE_START_MISSING_DEPENDENCY) \<rparr>"
  "type_query rev_env f = test_type\<lparr> DEVINFO_FCT_START :=
        Some (\<lambda>s a. if a = 1 \<or> started_at s (a + 1) then DEVICE_START_OK
                     else DEVICE_START_MISSING_DEPENDENCY) \<rparr>"
  by (simp_all add: chain_env_def rev_env_def)

lemma two_attached_cells:
  "cells (two_attached E) 0 =
     Some ((new_device E 0 0 ''a'')\<lparr>next := Some 1, typenext := Some 1, machine := Some 5\<rparr>)"
  "cells (two_attached E) 1 = Some ((new_device E 0 1 ''b'')\<lparr>machine := Some 5\<rparr>)"
  "cells (two_attached E) (Suc 0) = Some ((new_device E 0 1 ''b'')\<lparr>machine := Some 5\<rparr>)"
  by (simp_all add: two_attached_def)

lemma new_device_fields [simp]:
  "type (new_device E f a tg) = Some f"
  "tag (new_device E f a tg) = tg"
  "started (new_device E f a tg) = False"
  "token (new_device E f a tg) = None"
  "machine (new_device E f a tg) = None"
  "region (new_device E f a tg) = None"
  "regionbytes (new_device E f a tg) = 0"
  "next (new_device E f a tg) = None"
  "typenext (new_device E f a tg) = None"
  by (simp_all add: new_device_def Let_def)

lemma startable_two_attached:
  assumes "(ucast (DEVINFO_INT_TOKEN_BYTES (type_query E 0)) :: 32 word) \<noteq> 0"
  shows "\<forall>a \<in> set [0, 1]. startable E 5 (two_attached E) a"
  using assms by (simp add: startable_def two_attached_cells)

lemma token_bytes_examples:
  "(ucast (DEVINFO_INT_TOKEN_BYTES (type_query chain_env 0)) :: 32 word) \<noteq> 0"
  "(ucast (DEVINFO_INT_TOKEN_BYTES (type_query rev_env 0)) :: 32 word) \<noteq> 0"
  "(ucast (DEVINFO_INT_TOKEN_BYTES (type_query stuck_env 0)) :: 32 word) \<noteq> 0"
  "(ucast (DEVINFO_INT_TOKEN_BYTES (type_query test_env 0)) :: 32 word) \<noteq> 0"
  by (simp_all add: env_fields stuck_env_fields test_type_def test_env_def)

lemma waits_chain_env: "waits_for_previous chain_env (two_attached chain_env) [0, 1]"
  by (simp add: waits_for_previous_def in_deps_def starts_after_def two_attached_cells env_fields)

lemma waits_rev_env: "waits_for_next rev_env (two_attached rev_env) [0, 1]"
  by (simp add: waits_for_next_def rev_deps_def starts_after_def two_attached_cells env_fields)

text \<open>
  Claim C3 as stated fails for two devices listed in the order of their dependency:
  the device at address 0 starts at once, the device at address 1 starts once the
  first is started, and \<^verbatim>\<open>device_list_start\<close> returns after one pass, not two.
\<close>

theorem chain_in_list_order_one_pass:
  "map_option fst (device_list_start chain_env 5 (two_attached chain_env)) = Some (Inr 1)"
proof -
  from start_in_order [OF chain_two_attached _ startable_two_attached waits_chain_env]
  obtain s' where "device_list_start chain_env 5 (two_attached chain_env) = Some (Inr 1, s')"
    using token_bytes_examples by auto
  then show ?thesis by simp
qed

text \<open>
  Claim C3, amended. For a list of \<open>N \<ge> 1\<close> devices as \<^verbatim>\<open>device_list_add\<close> and
  \<^verbatim>\<open>device_list_attach_machine\<close> leave them, with token sizes that are not zero:
  when every device waits for the device before it in the list (and the first for
  none), \<^verbatim>\<open>device_list_start\<close> returns after exactly one pass of the \<^verbatim>\<open>while\<close> loop;
  when every device waits for the device after it in the list (and the last for
  none), it returns after exactly \<open>N\<close> passes. In both cases all \<open>N\<close> devices are
  started at the end.
\<close>

theorem start_dependency_chain:
  assumes "chain (cells s) (devicelist s) as" "as \<noteq> []" "\<forall>a \<in> set as. startable E m s a"
  shows "(waits_for_previous E s as \<longrightarrow>
           (\<exists>s'. device_list_start E m s = Some (Inr 1, s') \<and> (\<forall>a \<in> set as. started_at s' a))) \<and>
         (waits_for_next E s as \<longrightarrow>
           (\<exists>s'. device_list_start E m s = Some (Inr (length as), s') \<and>
                 (\<forall>a \<in> set as. started_at s' a)))"
  using start_in_order [OF assms] start_reverse_order [OF assms] by blast


theorem start_dependency_chain_witness:
  "(\<exists>s'. device_list_start chain_env 5 (two_attached chain_env) = Some (Inr 1, s')) \<and>
   (\<exists>s'. device_list_start rev_env 5 (two_attached rev_env) = Some (Inr 2, s'))"
proof -
  have 1: "\<exists>s'. device_list_start chain_env 5 (two_attached chain_env) = Some (Inr 1, s')"
    using start_dependency_chain [OF chain_two_attached _ startable_two_attached, of chain_env]
      token_bytes_examples waits_chain_env
    by auto
  have 2: "\<exists>s'. device_list_start rev_env 5 (two_attached rev_env) = Some (Inr 2, s')"
    using start_dependency_chain [OF chain_two_attached _ startable_two_attached, of rev_env]
      token_bytes_examples waits_rev_env
    by auto
  show ?thesis using 1 2 by (rule conjI)
qed

subsection \<open>Stopping the devices\<close>

lemma start_allocate_Inr:
  assumes "start_allocate E m s a = Some (Inr u, s1)"
  shows "\<exists>d f. cells s a = Some d \<and> type d = Some f \<and>
           (ucast (DEVINFO_INT_TOKEN_BYTES (type_query E f)) :: 32 word) \<noteq> 0 \<and>
           s1 = s\<lparr> brk := Suc (brk s),
                   blocks := (blocks s)(brk s \<mapsto>
                      replicate (unat (ucast (DEVINFO_INT_TOKEN_BYTES (type_query E f)) :: 32 word)) 0),
                   cells := (cells s)(a \<mapsto> with_token E m f (brk s) d) \<rparr>"
  using assms
  by (auto simp: start_allocate_def Let_def malloc_or_die_def with_token_def
           split: option.splits if_splits)

lemma start_alloc_loop_allocated:
  assumes "chain (cells s) p as" "start_alloc_loop E m s p c = Some (Inr n, s')"
  shows "n = c + int (length as) \<and> allocated E m s as s'"
  using assms
proof (induction as arbitrary: s p c)
  case Nil
  then have "p = None" by simp
  with Nil.prems(2) have "n = c \<and> s' = s"
    by (subst (asm) start_alloc_loop.simps) simp
  then show ?case by (simp add: allocated_def)
next
  case (Cons a as)
  from Cons.prems(1) obtain d0 where p: "p = Some a" and d0: "cells s a = Some d0"
    and ch: "chain (cells s) (next d0) as" by auto
  have nin: "a \<notin> set as" using chain_head_notin [OF Cons.prems(1)] .
  from Cons.prems(2) p obtain r s1 where sa: "start_allocate E m s a = Some (r, s1)"
    by (subst (asm) start_alloc_loop.simps) (auto split: option.splits)
  from Cons.prems(2) p sa obtain u where r: "r = Inr u"
    by (subst (asm) start_alloc_loop.simps) (auto split: sum.splits)
  from start_allocate_Inr [OF sa [unfolded r]] d0 obtain f where f: "type d0 = Some f"
    and s1: "s1 = s\<lparr> brk := Suc (brk s),
                   blocks := (blocks s)(brk s \<mapsto>
                      replicate (unat (ucast (DEVINFO_INT_TOKEN_BYTES (type_query E f)) :: 32 word)) 0),
                   cells := (cells s)(a \<mapsto> with_token E m f (brk s) d0) \<rparr>"
    by auto
  have c1: "cells s1 a = Some (with_token E m f (brk s) d0)" by (simp add: s1)
  have ch1: "chain (cells s1) (next d0) as"
    using ch nin
    by (simp add: s1 chain_cong [of as "(cells s)(a \<mapsto> with_token E m f (brk s) d0)" "cells s"])
  have unf: "start_alloc_loop E m s p c = start_alloc_loop E m s1 (next d0) (c + 1)"
    by (subst start_alloc_loop.simps) (simp add: p sa r c1)
  from Cons.IH [OF ch1, of "c + 1"] unf Cons.prems(2)
  have n: "n = c + 1 + int (length as)" and al: "allocated E m s1 as s'" by simp_all
  have "allocated E m s (a # as) s'"
    using d0 f nin al [unfolded s1] by (rule allocated_Cons)
  with n show ?case by simp
qed

lemma mark_mark: "mark (mark s A) B = mark s (A \<union> B)"
proof -
  have c: "cells (mark (mark s A) B) = cells (mark s (A \<union> B))"
  proof (rule ext)
    fix x
    show "cells (mark (mark s A) B) x = cells (mark s (A \<union> B)) x"
      by (cases "cells s x") (auto simp: cells_mark)
  qed
  show ?thesis
    by (rule machine_state.equality) (simp_all add: c)
qed

lemma start_device_marks:
  assumes "start_device E s a = Some (r, s')"
  shows "\<exists>A. A \<subseteq> {a} \<and> s' = mark s A"
proof -
  have "s' = s \<or> (\<exists>d. cells s a = Some d \<and> s' = s\<lparr>cells := (cells s)(a \<mapsto> d\<lparr>started := True\<rparr>)\<rparr>)"
    using assms
    by (auto simp: start_device_def split: option.splits sum.splits if_splits)
  then show ?thesis
  proof
    assume "s' = s"
    then have "{} \<subseteq> {a} \<and> s' = mark s {}" by simp
    then show ?thesis ..
  next
    assume "\<exists>d. cells s a = Some d \<and> s' = s\<lparr>cells := (cells s)(a \<mapsto> d\<lparr>started := True\<rparr>)\<rparr>"
    then obtain d where d: "cells s a = Some d"
      and s': "s' = s\<lparr>cells := (cells s)(a \<mapsto> d\<lparr>started := True\<rparr>)\<rparr>" by blast
    have "insert a {} \<subseteq> {a} \<and> s' = mark s (insert a {})"
      using mark_insert [of s "{}" a d] d s' by simp
    then show ?thesis ..
  qed
qed

lemma start_sweep_marks:
  assumes "chain (cells s) p as" "start_sweep E s p c = Some (r, s')"
  shows "\<exists>A. A \<subseteq> set as \<and> s' = mark s A"
  using assms
proof (induction as arbitrary: s p c)
  case Nil
  then have "p = None" by simp
  with Nil.prems(2) have "s' = s"
    by (subst (asm) start_sweep.simps) simp
  then have "{} \<subseteq> set [] \<and> s' = mark s {}" by simp
  then show ?case ..
next
  case (Cons a as)
  from Cons.prems(1) obtain d0 where p: "p = Some a" and d0: "cells s a = Some d0"
    and ch: "chain (cells s) (next d0) as" by auto
  from Cons.prems(2) p obtain r1 s1 where sd: "start_device E s a = Some (r1, s1)"
    by (subst (asm) start_sweep.simps) (auto split: option.splits)
  from start_device_marks [OF sd] obtain B where B: "B \<subseteq> {a}" and s1: "s1 = mark s B" by blast
  show ?case
  proof (cases r1)
    case (Inl e)
    with Cons.prems(2) p sd have "s' = s1"
      by (subst (asm) start_sweep.simps) simp
    with s1 B have "B \<subseteq> set (a # as) \<and> s' = mark s B" by auto
    then show ?thesis ..
  next
    case (Inr u)
    have "\<exists>d1. cells s1 a = Some d1 \<and> next d1 = next d0"
      using d0 by (simp add: s1 cells_mark)
    then obtain d1 where d1: "cells s1 a = Some d1" and n1: "next d1 = next d0" by blast
    have ch1: "chain (cells s1) (next d1) as"
      using ch by (simp add: s1 n1 mark_chain)
    have "start_sweep E s p c =
            start_sweep E s1 (next d1) (c + (if started d1 then 1 else 0))"
      by (subst start_sweep.simps) (simp add: p sd Inr d1)
    with Cons.prems(2)
    have "start_sweep E s1 (next d1) (c + (if started d1 then 1 else 0)) = Some (r, s')"
      by simp
    from Cons.IH [OF ch1 this] obtain A where A: "A \<subseteq> set as" and "s' = mark s1 A" by blast
    then have "B \<union> A \<subseteq> set (a # as) \<and> s' = mark s (B \<union> A)"
      using B by (auto simp: s1 mark_mark)
    then show ?thesis ..
  qed
qed

lemma start_sweep_count:
  assumes "chain (cells s) p as" "start_sweep E s p c = Some (Inr q, s')"
  shows "q = c + int (length (filter (started_at s') as))"
  using assms
proof (induction as arbitrary: s p c)
  case Nil
  then have "p = None" by simp
  with Nil.prems(2) show ?case
    by (subst (asm) start_sweep.simps) simp
next
  case (Cons a as)
  from Cons.prems(1) obtain d0 where p: "p = Some a" and d0: "cells s a = Some d0"
    and ch: "chain (cells s) (next d0) as" by auto
  have nin: "a \<notin> set as" using chain_head_notin [OF Cons.prems(1)] .
  from Cons.prems(2) p obtain r1 s1 where sd: "start_device E s a = Some (r1, s1)"
    by (subst (asm) start_sweep.simps) (auto split: option.splits)
  from start_device_marks [OF sd] obtain B where s1: "s1 = mark s B" by blast
  from Cons.prems(2) p sd obtain u where r1: "r1 = Inr u"
    by (subst (asm) start_sweep.simps) (auto split: sum.splits)
  have "\<exists>d1. cells s1 a = Some d1 \<and> next d1 = next d0"
    using d0 by (simp add: s1 cells_mark)
  then obtain d1 where d1: "cells s1 a = Some d1" and n1: "next d1 = next d0" by blast
  have ch1: "chain (cells s1) (next d1) as"
    using ch by (simp add: s1 n1 mark_chain)
  have "start_sweep E s p c =
          start_sweep E s1 (next d1) (c + (if started d1 then 1 else 0))"
    by (subst start_sweep.simps) (simp add: p sd r1 d1)
  with Cons.prems(2)
  have rest: "start_sweep E s1 (next d1) (c + (if started d1 then 1 else 0)) = Some (Inr q, s')"
    by simp
  from Cons.IH [OF ch1 rest]
  have q: "q = c + (if started d1 then 1 else 0) + int (length (filter (started_at s') as))" .
  from start_sweep_marks [OF ch1 rest] obtain A where A: "A \<subseteq> set as" and s': "s' = mark s1 A"
    by blast
  have "a \<notin> A" using A nin by blast
  then have "cells s' a = cells s1 a" by (simp add: s' cells_mark)
  then have "started_at s' a = started d1" using d1 by (simp add: started_at_def)
  with q show ?case by simp
qed

lemma start_loop_marks:
  "start_loop E s n dc k = Some y \<Longrightarrow>
     chain (cells s) (devicelist s) as \<longrightarrow> (\<exists>A. snd y = mark s A)"
proof (induction rule: start_loop.raw_induct [rotated 1, consumes 1])
  case (1 loop E s n dc k y)
  show ?case
  proof
    assume ch: "chain (cells s) (devicelist s) as"
    show "\<exists>A. snd y = mark s A"
    proof (cases "n < dc")
      case False
      with 1(2) have "snd y = mark s {}" by auto
      then show ?thesis ..
    next
      case True
      with 1(2) obtain r1 s1 where sw: "start_sweep E s (devicelist s) 0 = Some (r1, s1)"
        by (auto split: option.splits)
      from start_sweep_marks [OF ch sw] obtain B where s1: "s1 = mark s B" by blast
      show ?thesis
      proof (cases "\<exists>q. r1 = Inr q \<and> q \<noteq> n")
        case False
        with 1(2) True sw have "snd y = s1"
          by (cases r1) (auto split: if_splits)
        with s1 show ?thesis by blast
      next
        case t: True
        then obtain q where q: "r1 = Inr q" "q \<noteq> n" by blast
        with 1(2) True sw have "loop E s1 q dc (Suc k) = Some y" by simp
        note ih = 1(1) [OF this]
        from ih ch have "\<exists>A. snd y = mark s1 A"
          by (simp add: s1 mark_chain)
        then obtain A where "snd y = mark s1 A" ..
        then have "snd y = mark s (B \<union> A)" by (simp add: s1 mark_mark)
        then show ?thesis ..
      qed
    qed
  qed
qed

lemma start_loop_all_started:
  "start_loop E s n dc k = Some y \<Longrightarrow>
     chain (cells s) (devicelist s) as \<and> dc = int (length as) \<and>
     n \<le> int (length (filter (started_at s) as)) \<longrightarrow>
     (\<forall>r s'. y = (Inr r, s') \<longrightarrow> (\<forall>a \<in> set as. started_at s' a))"
proof (induction rule: start_loop.raw_induct [rotated 1, consumes 1])
  case (1 loop E s n dc k y)
  show ?case
  proof (intro impI allI, elim conjE)
    fix r s'
    assume ch: "chain (cells s) (devicelist s) as" and dc: "dc = int (length as)"
      and n: "n \<le> int (length (filter (started_at s) as))" and y: "y = (Inr r, s')"
    show "\<forall>a \<in> set as. started_at s' a"
    proof (cases "n < dc")
      case False
      with 1(2) y have s': "s' = s" by simp
      from False dc n have "\<not> length (filter (started_at s) as) < length as" by simp
      then have "\<forall>a \<in> set as. started_at s a"
        using length_filter_less [of _ as "started_at s"] by blast
      with s' show ?thesis by simp
    next
      case True
      with 1(2) obtain r1 s1 where sw: "start_sweep E s (devicelist s) 0 = Some (r1, s1)"
        by (auto split: option.splits)
      from start_sweep_marks [OF ch sw] obtain B where s1: "s1 = mark s B" by blast
      from 1(2) True sw y obtain q where q: "r1 = Inr q" "q \<noteq> n"
        by (cases r1) (auto split: if_splits)
      with 1(2) True sw have lp: "loop E s1 q dc (Suc k) = Some y" by simp
      have ch1: "chain (cells s1) (devicelist s1) as" using ch by (simp add: s1 mark_chain)
      from start_sweep_count [OF ch sw [unfolded q(1)]]
      have "q \<le> int (length (filter (started_at s1) as))" by simp
      with 1(1) [OF lp] ch1 dc y show ?thesis by blast
    qed
  qed
qed

lemma stop_device_live:
  assumes "cells s a = Some d" "token d = Some t" "type d \<noteq> None" "blocks s t \<noteq> None"
  shows "stop_device E s a =
           Some (Inr (), s\<lparr> blocks := (blocks s)(t := None), frees := frees s @ [t],
                            cells := (cells s)(a \<mapsto> reset_runtime d) \<rparr>)"
  using assms
  by (auto simp: stop_device_def device_get_info_fct_def assert_fails_def free_def
                 reset_runtime_def)

lemma stop_loop_chain:
  assumes "chain (cells s) p as"
    and "\<forall>i < length as. \<exists>d. cells s (as ! i) = Some d \<and> token d = Some (b + i) \<and> type d \<noteq> None"
    and "\<forall>i < length as. blocks s (b + i) \<noteq> None"
  shows "\<exists>s'. stop_loop E s p = Some (Inr (), s') \<and> devicelist s' = devicelist s \<and>
           frees s' = frees s @ [b ..< b + length as] \<and>
           (\<forall>x. cells s' x = (if x \<in> set as then map_option reset_runtime (cells s x)
                               else cells s x))"
  using assms
proof (induction as arbitrary: s p b)
  case Nil
  then show ?case
    by (subst stop_loop.simps) simp
next
  case (Cons a as)
  from Cons.prems(1) obtain d0 where p: "p = Some a" and d0: "cells s a = Some d0"
    and ch: "chain (cells s) (next d0) as" by auto
  have nin: "a \<notin> set as" using chain_head_notin [OF Cons.prems(1)] .
  from Cons.prems(2) [rule_format, of 0] d0
  have t0: "token d0 = Some b" and ty0: "type d0 \<noteq> None" by auto
  from Cons.prems(3) [rule_format, of 0] have b0: "blocks s b \<noteq> None" by simp
  let ?s1 = "s\<lparr> blocks := (blocks s)(b := None), frees := frees s @ [b],
                 cells := (cells s)(a \<mapsto> reset_runtime d0) \<rparr>"
  have step: "stop_device E s a = Some (Inr (), ?s1)"
    using d0 t0 ty0 b0 by (rule stop_device_live)
  have ch1: "chain (cells ?s1) (next d0) as"
    using ch nin by (simp add: chain_cong [of as "(cells s)(a \<mapsto> reset_runtime d0)" "cells s"])
  have tok1: "\<forall>i < length as. \<exists>d. cells ?s1 (as ! i) = Some d \<and> token d = Some (Suc b + i)
                 \<and> type d \<noteq> None"
  proof (intro allI impI)
    fix i assume i: "i < length as"
    then have ne: "as ! i \<noteq> a" using nin nth_mem by metis
    from Cons.prems(2) [rule_format, of "Suc i"] i
    have "\<exists>d. cells s (as ! i) = Some d \<and> token d = Some (b + Suc i) \<and> type d \<noteq> None" by simp
    then show "\<exists>d. cells ?s1 (as ! i) = Some d \<and> token d = Some (Suc b + i) \<and> type d \<noteq> None"
      using ne by simp
  qed
  have blk1: "\<forall>i < length as. blocks ?s1 (Suc b + i) \<noteq> None"
  proof (intro allI impI)
    fix i assume i: "i < length as"
    from Cons.prems(3) [rule_format, of "Suc i"] i show "blocks ?s1 (Suc b + i) \<noteq> None" by simp
  qed
  from Cons.IH [OF ch1 tok1 blk1] obtain s' where
    loop: "stop_loop E ?s1 (next d0) = Some (Inr (), s')"
    and dl: "devicelist s' = devicelist ?s1"
    and fr: "frees s' = frees ?s1 @ [Suc b ..< Suc b + length as]"
    and cl: "\<forall>x. cells s' x = (if x \<in> set as then map_option reset_runtime (cells ?s1 x)
                               else cells ?s1 x)" by blast
  have unf: "stop_loop E s p = stop_loop E ?s1 (next d0)"
    by (subst stop_loop.simps) (simp add: p step reset_runtime_def)
  have r1: "stop_loop E s p = Some (Inr (), s')" using unf loop by simp
  have r2: "devicelist s' = devicelist s" using dl by simp
  have "[b ..< b + length (a # as)] = b # [Suc b ..< Suc b + length as]"
    by (subst upt_rec) simp
  then have r3: "frees s' = frees s @ [b ..< b + length (a # as)]"
    using fr by simp
  have r4: "\<forall>x. cells s' x = (if x \<in> set (a # as) then map_option reset_runtime (cells s x)
                               else cells s x)"
    using cl nin d0 by auto
  from r1 r2 r3 r4 show ?case by blast
qed

lemma reset_runtime_idem:
  assumes "token d = None" "tokenbytes d = 0" "machine d = None" "region d = None" "regionbytes d = 0"
  shows "d\<lparr> token := None, tokenbytes := 0, machine := None, region := None, regionbytes := 0 \<rparr> = d"
  using assms by (cases d) simp

lemma stop_loop_stopped:
  assumes "chain (cells s) p as" "\<forall>a \<in> set as. stopped_at s a \<and> typed_at s a"
  shows "stop_loop E s p =
           Some (if MAME_DEBUG E \<and> as \<noteq> [] then Inl Assertion_failed else Inr (), s)"
  using assms
proof (induction as arbitrary: p)
  case Nil
  then show ?case
    by (subst stop_loop.simps) simp
next
  case (Cons a as)
  from Cons.prems(1) obtain d0 where p: "p = Some a" and d0: "cells s a = Some d0"
    and ch: "chain (cells s) (next d0) as" by auto
  from Cons.prems(2) d0 have f: "token d0 = None" "tokenbytes d0 = 0" "machine d0 = None"
    "region d0 = None" "regionbytes d0 = 0" and ty: "type d0 \<noteq> None"
    by (simp_all add: stopped_at_def typed_at_def)
  show ?case
  proof (cases "MAME_DEBUG E")
    case True
    have "stop_device E s a = Some (Inl Assertion_failed, s)"
      using d0 f ty True by (auto simp: stop_device_def device_get_info_fct_def assert_fails_def)
    then show ?thesis
      using True by (subst stop_loop.simps) (simp add: p)
  next
    case False
    have upd: "s\<lparr>cells := (cells s)(a \<mapsto> d0)\<rparr> = s"
      using d0 by (simp add: map_upd_triv)
    have step: "stop_device E s a = Some (Inr (), s)"
      using d0 f ty False
      by (auto simp: stop_device_def device_get_info_fct_def assert_fails_def
                     reset_runtime_idem [OF f] upd)
    have "stop_loop E s p = stop_loop E s (next d0)"
      by (subst stop_loop.simps) (simp add: p step d0)
    also have "\<dots> = Some (if MAME_DEBUG E \<and> as \<noteq> [] then Inl Assertion_failed else Inr (), s)"
      using Cons.IH [OF ch] Cons.prems(2) by simp
    finally show ?thesis using False by simp
  qed
qed

lemma start_then_marked:
  assumes ch: "chain (cells s) (devicelist s) as"
    and st: "device_list_start E m s = Some (Inr n, s1)"
  shows "\<exists>u A. allocated E m
             (add_exit_callback (add_reset_callback s Device_list_reset) Device_list_stop) as u \<and>
           s1 = mark u A"
proof -
  let ?s0 = "add_exit_callback (add_reset_callback s Device_list_reset) Device_list_stop"
  have ch0: "chain (cells ?s0) (devicelist ?s0) as" using ch by simp
  from st obtain dc u where
    alloc: "start_alloc_loop E m ?s0 (devicelist ?s0) 0 = Some (Inr dc, u)"
    and loop: "start_loop E u 0 dc 0 = Some (Inr n, s1)"
    by (auto simp: device_list_start_def Let_def split: option.splits sum.splits)
  from start_alloc_loop_allocated [OF ch0 alloc] have al: "allocated E m ?s0 as u" by simp
  have du: "devicelist u = devicelist ?s0" using al by (simp add: allocated_def)
  have chu: "chain (cells u) (devicelist u) as"
    using ch0 by (simp add: allocated_chain [OF al] du)
  from start_loop_marks [OF loop, of as] chu obtain A where "s1 = mark u A" by auto
  with al show ?thesis by blast
qed

lemma stop_marked:
  assumes ch: "chain (cells s) (devicelist s) as"
    and al: "allocated E m s as u"
  shows "\<exists>s2. device_list_stop E (mark u A) = Some (Inr (), s2) \<and>
           (\<forall>a \<in> set as. stopped_at s2 a) \<and>
           frees s2 = frees s @ [brk s ..< brk s + length as] \<and>
           device_list_stop E s2 =
             Some (if MAME_DEBUG E \<and> as \<noteq> [] then Inl Assertion_failed else Inr (), s2)"
proof -
  let ?s1 = "mark u A"
  have dl: "devicelist u = devicelist s" using al by (simp add: allocated_def)
  have ch1: "chain (cells ?s1) (devicelist ?s1) as"
    using ch by (simp add: mark_chain allocated_chain [OF al] dl)
  have tok: "\<forall>i < length as. \<exists>d. cells ?s1 (as ! i) = Some d \<and> token d = Some (brk s + i)
                \<and> type d \<noteq> None"
  proof (intro allI impI)
    fix i assume i: "i < length as"
    with al obtain d f where "type d = Some f"
      "cells u (as ! i) = Some (with_token E m f (brk s + i) d)"
      unfolding allocated_def by blast
    then show "\<exists>d. cells ?s1 (as ! i) = Some d \<and> token d = Some (brk s + i) \<and> type d \<noteq> None"
      by (simp add: cells_mark)
  qed
  have blk: "\<forall>i < length as. blocks ?s1 (brk s + i) \<noteq> None"
    using al by (simp add: allocated_def)
  from stop_loop_chain [OF ch1 tok blk, of E] obtain s2 where
    r: "stop_loop E ?s1 (devicelist ?s1) = Some (Inr (), s2)"
    and d2: "devicelist s2 = devicelist ?s1"
    and f2: "frees s2 = frees ?s1 @ [brk s ..< brk s + length as]"
    and c2: "\<forall>x. cells s2 x = (if x \<in> set as then map_option reset_runtime (cells ?s1 x)
                               else cells ?s1 x)" by blast
  have live: "\<forall>a \<in> set as. \<exists>d. cells ?s1 a = Some d \<and> type d \<noteq> None"
  proof
    fix a assume "a \<in> set as"
    then obtain i where "i < length as" "as ! i = a" by (auto simp: in_set_conv_nth)
    with tok show "\<exists>d. cells ?s1 a = Some d \<and> type d \<noteq> None" by blast
  qed
  have st2: "\<forall>a \<in> set as. stopped_at s2 a \<and> typed_at s2 a"
  proof
    fix a assume a: "a \<in> set as"
    with live obtain d where "cells ?s1 a = Some d" "type d \<noteq> None" by blast
    then show "stopped_at s2 a \<and> typed_at s2 a"
      using a c2 by (simp add: stopped_at_def typed_at_def reset_runtime_def)
  qed
  have nx: "\<forall>a \<in> set as. map_option next (cells s2 a) = map_option next (cells ?s1 a)"
    using c2 by (simp add: option.map_comp o_def reset_runtime_def)
  have ch2: "chain (cells s2) (devicelist s2) as"
    using ch1 by (simp add: chain_cong [OF nx] d2)
  have fr: "frees ?s1 = frees s" using al by (simp add: allocated_def)
  have r1: "device_list_stop E ?s1 = Some (Inr (), s2)"
    using r by (simp add: device_list_stop_def)
  have r2: "\<forall>a \<in> set as. stopped_at s2 a" using st2 by blast
  have r3: "frees s2 = frees s @ [brk s ..< brk s + length as]" using f2 fr by simp
  have r4: "device_list_stop E s2 =
             Some (if MAME_DEBUG E \<and> as \<noteq> [] then Inl Assertion_failed else Inr (), s2)"
    unfolding device_list_stop_def using ch2 st2 by (rule stop_loop_stopped)
  from r1 r2 r3 r4 show ?thesis by blast
qed

text \<open>
  Claim C7. For every machine with the device list \<open>as\<close> on which
  \<^verbatim>\<open>device_list_start\<close> has returned, \<^verbatim>\<open>device_list_stop\<close> returns and leaves the
  token, the token size, the machine reference, the region pointer and the region
  length of every device null or zero; it has handed to \<^verbatim>\<open>free\<close> exactly the token
  blocks that \<^verbatim>\<open>device_list_start\<close> allocated, each once. A second
  \<^verbatim>\<open>device_list_stop\<close> ends (at the first \<^verbatim>\<open>assert\<close> when assertions are compiled in
  and the list is not empty, by returning otherwise) in the very same memory: no
  token is handed to \<^verbatim>\<open>free\<close> again, and the fields stay null or zero.
\<close>

theorem stop_after_start_releases_once:
  assumes "chain (cells s) (devicelist s) as"
    and "device_list_start E m s = Some (Inr n, s1)"
  shows "\<exists>s2. device_list_stop E s1 = Some (Inr (), s2) \<and>
           (\<forall>a \<in> set as. stopped_at s2 a) \<and>
           frees s2 = frees s @ [brk s ..< brk s + length as] \<and>
           device_list_stop E s2 =
             Some (if MAME_DEBUG E \<and> as \<noteq> [] then Inl Assertion_failed else Inr (), s2)"
proof -
  let ?s0 = "add_exit_callback (add_reset_callback s Device_list_reset) Device_list_stop"
  from start_then_marked [OF assms] obtain u A where
    al: "allocated E m ?s0 as u" and s1: "s1 = mark u A" by blast
  have ch0: "chain (cells ?s0) (devicelist ?s0) as" using assms(1) by simp
  from stop_marked [OF ch0 al, of A] show ?thesis by (simp add: s1)
qed

lemma debug_chain_env: "MAME_DEBUG chain_env"
  by (simp add: chain_env_def test_env_def)

lemma upt_two_four: "[2 ..< 2 + length [0::nat, 1]] = [2::nat, 3]"
  by (simp add: upt_rec)

theorem stop_after_start_releases_once_witness:
  "\<exists>s1 s2. device_list_start chain_env 5 (two_attached chain_env) = Some (Inr 1, s1) \<and>
     device_list_stop chain_env s1 = Some (Inr (), s2) \<and>
     list_all (stopped_at s2) [0, 1] \<and> frees s2 = [2, 3] \<and>
     device_list_stop chain_env s2 = Some (Inl Assertion_failed, s2)"
proof -
  from start_in_order [OF chain_two_attached _ startable_two_attached waits_chain_env]
    token_bytes_examples
  obtain s1 where s1: "device_list_start chain_env 5 (two_attached chain_env) = Some (Inr 1, s1)"
    by auto
  from stop_after_start_releases_once [OF chain_two_attached s1]
  obtain s2 where "device_list_stop chain_env s1 = Some (Inr (), s2)"
    "\<forall>a \<in> set [0, 1]. stopped_at s2 a"
    "frees s2 = frees (two_attached chain_env) @
       [brk (two_attached chain_env) ..< brk (two_attached chain_env) + length [0::nat, 1]]"
    "device_list_stop chain_env s2 =
       Some (if MAME_DEBUG chain_env \<and> [0::nat, 1] \<noteq> [] then Inl Assertion_failed else Inr (), s2)"
    by blast
  then have "device_list_stop chain_env s1 = Some (Inr (), s2) \<and>
     list_all (stopped_at s2) [0, 1] \<and> frees s2 = [2, 3] \<and>
     device_list_stop chain_env s2 = Some (Inl Assertion_failed, s2)"
    by (simp add: debug_chain_env two_attached_def upt_rec)
  with s1 show ?thesis by blast
qed

subsection \<open>The lifetime of the runtime fields\<close>

lemma store_devlink_added:
  "store_devlink s l v = Some s' \<Longrightarrow> added_at s' a = added_at s a"
  by (cases l) (auto simp: store_devlink_def added_at_def split: option.splits if_splits)

lemma store_typelink_added:
  "store_typelink s l v = Some s' \<Longrightarrow> added_at s' a = added_at s a"
  by (cases l) (auto simp: store_typelink_def added_at_def split: option.splits if_splits)

lemma device_list_add_added:
  assumes "device_list_add E t ty tg = Some (Inr b, t')"
  shows "added_at t' b"
proof -
  from assms obtain f s3 l3 l4 where ty: "ty = Some f" and b: "b = brk t"
    and s3: "store_typelink (t\<lparr>brk := Suc (brk t),
                 cells := (cells t)(brk t \<mapsto> new_device E f (brk t) tg)\<rparr>) l3 (Some (brk t)) = Some s3"
    and s4: "store_devlink s3 l4 (Some (brk t)) = Some t'"
    by (auto simp: device_list_add_def malloc_or_die_def Let_def
             split: option.splits sum.splits if_splits)
  have "added_at (t\<lparr>brk := Suc (brk t),
                 cells := (cells t)(brk t \<mapsto> new_device E f (brk t) tg)\<rparr>) b"
    by (simp add: added_at_def b new_device_def Let_def)
  then show ?thesis
    by (simp add: store_devlink_added [OF s4] store_typelink_added [OF s3])
qed

lemma start_all_started:
  assumes ch: "chain (cells s) (devicelist s) as"
    and st: "device_list_start E m s = Some (Inr n, s1)"
  shows "\<forall>a \<in> set as. started_at s1 a"
proof -
  let ?s0 = "add_exit_callback (add_reset_callback s Device_list_reset) Device_list_stop"
  have ch0: "chain (cells ?s0) (devicelist ?s0) as" using ch by simp
  from st obtain dc u where
    alloc: "start_alloc_loop E m ?s0 (devicelist ?s0) 0 = Some (Inr dc, u)"
    and loop: "start_loop E u 0 dc 0 = Some (Inr n, s1)"
    by (auto simp: device_list_start_def Let_def split: option.splits sum.splits)
  from start_alloc_loop_allocated [OF ch0 alloc]
  have dc: "dc = int (length as)" and al: "allocated E m ?s0 as u" by simp_all
  have du: "devicelist u = devicelist ?s0" using al by (simp add: allocated_def)
  have chu: "chain (cells u) (devicelist u) as"
    using ch0 by (simp add: allocated_chain [OF al] du)
  from start_loop_all_started [OF loop, of as] chu dc show ?thesis by simp
qed

lemma allocated_loaded:
  assumes al: "allocated E m s as u" and a: "a \<in> set as" and st: "startable E m s a"
  shows "loaded_at m (mark u A) a \<and> \<not> started_at u a"
proof -
  from allocated_member [OF al a] obtain d f t where d: "cells s a = Some d"
    and f: "type d = Some f" and u: "cells u a = Some (with_token E m f t d)" by blast
  from st d f have "(ucast (DEVINFO_INT_TOKEN_BYTES (type_query E f)) :: 32 word) \<noteq> 0"
    "\<not> started d"
    by (simp_all add: startable_def)
  then show ?thesis using u by (simp add: loaded_at_def started_at_def cells_mark)
qed

text \<open>
  Claim C2 as stated fails for one device that is added to the empty registry and
  attached to the machine 5: at the end of the first loop of \<^verbatim>\<open>device_list_start\<close>,
  before any start function has been called, the device is not started, yet its
  token is not null, its token size is 4 and its machine reference is set.
\<close>

theorem token_allocated_before_start:
  "Option.bind (device_list_add test_env empty_registry (Some 0) ''a'')
     (\<lambda>(r, t). Option.bind (device_list_attach_machine t 5)
        (\<lambda>s. map_option
                (\<lambda>(n, u). (n, map_option (\<lambda>d. (started d, token d, tokenbytes d, machine d))
                                         (cells u 0)))
                (start_alloc_loop test_env 5 s (devicelist s) 0)))
   = Some (Inr 1, Some (False, Some 1, 4, Some 5))"
proof -
  let ?t = "linked test_env empty_registry [] 0 ''a''"
  have add: "device_list_add test_env empty_registry (Some 0) ''a'' = Some (Inr 0, ?t)"
    by (rule add_first_device) (simp add: wildcard_test_env)
  have att: "device_list_attach_machine ?t 5 = Some (one_attached test_env)"
    by (rule attach_first_device)
  have n0: "next (new_device test_env 0 0 ''a'') = None" by (simp add: new_device_def Let_def)
  have c1: "cells (one_attached test_env) 0 = Some ((new_device test_env 0 0 ''a'')\<lparr>machine := Some 5\<rparr>)"
    by (simp add: one_attached_def)
  have sa: "start_allocate test_env 5 (one_attached test_env) 0 =
     Some (Inr (), (one_attached test_env)\<lparr> brk := 2,
            blocks := (blocks (one_attached test_env))(1 \<mapsto> replicate 4 0),
            cells := (cells (one_attached test_env))(0 \<mapsto>
               with_token test_env 5 0 1 ((new_device test_env 0 0 ''a'')\<lparr>machine := Some 5\<rparr>)) \<rparr>)"
    using start_allocate_startable [of test_env 5 "one_attached test_env" 0]
    by (simp add: startable_def c1 token_bytes_examples, simp add: one_attached_def test_env_def test_type_def)
  let ?u = "(one_attached test_env)\<lparr> brk := 2,
            blocks := (blocks (one_attached test_env))(1 \<mapsto> replicate 4 0),
            cells := (cells (one_attached test_env))(0 \<mapsto>
               with_token test_env 5 0 1 ((new_device test_env 0 0 ''a'')\<lparr>machine := Some 5\<rparr>)) \<rparr>"
  have dl: "devicelist (one_attached test_env) = Some 0" by (simp add: one_attached_def)
  have "start_alloc_loop test_env 5 (one_attached test_env) (Some 0) 0 =
          start_alloc_loop test_env 5 ?u None 1"
    by (subst start_alloc_loop.simps) (simp add: sa n0)
  also have "\<dots> = Some (Inr 1, ?u)"
    by (subst start_alloc_loop.simps) simp
  finally have run: "start_alloc_loop test_env 5 (one_attached test_env)
                  (devicelist (one_attached test_env)) 0 = Some (Inr 1, ?u)"
    by (simp add: dl)
  have tb: "(ucast (DEVINFO_INT_TOKEN_BYTES (type_query test_env 0)) :: 32 word) = 4"
    by (simp add: test_env_def test_type_def)
  show ?thesis
    by (simp add: add att run tb)
qed

text \<open>
  Claim C2, amended. A device that \<^verbatim>\<open>device_list_add\<close> has just added is not started
  and its token, machine reference, region pointer and region length are null or zero
  (its token size is not assigned). For a list of devices as \<^verbatim>\<open>device_list_add\<close> and
  \<^verbatim>\<open>device_list_attach_machine\<close> leave them, with token sizes that are not zero: at
  the end of the first loop of \<^verbatim>\<open>device_list_start\<close>, before any start function has
  been called, every device is still not started but has a token that is not null, a
  token size that is not zero and its machine reference set; once
  \<^verbatim>\<open>device_list_start\<close> has returned every device is started and still has them;
  and after the \<^verbatim>\<open>device_list_stop\<close> that follows, the token, the token size, the
  machine reference, the region pointer and the region length of every device are
  null or zero.
\<close>

theorem runtime_fields_lifetime:
  "(device_list_add E t ty tg = Some (Inr b, t') \<longrightarrow> added_at t' b) \<and>
   (chain (cells s) (devicelist s) as \<and> (\<forall>a \<in> set as. startable E m s a) \<longrightarrow>
      (\<exists>u. start_alloc_loop E m s (devicelist s) 0 = Some (Inr (int (length as)), u) \<and>
           (\<forall>a \<in> set as. \<not> started_at u a \<and> loaded_at m u a)) \<and>
      (device_list_start E m s = Some (Inr n, s1) \<longrightarrow>
         (\<forall>a \<in> set as. started_at s1 a \<and> loaded_at m s1 a) \<and>
         (\<exists>s2. device_list_stop E s1 = Some (Inr (), s2) \<and> (\<forall>a \<in> set as. stopped_at s2 a))))"
proof -
  let ?s0 = "add_exit_callback (add_reset_callback s Device_list_reset) Device_list_stop"
  have part1: "device_list_add E t ty tg = Some (Inr b, t') \<Longrightarrow> added_at t' b"
    by (rule device_list_add_added)
  have part2: "\<exists>u. start_alloc_loop E m s (devicelist s) 0 = Some (Inr (int (length as)), u) \<and>
                  (\<forall>a \<in> set as. \<not> started_at u a \<and> loaded_at m u a)"
    if ch: "chain (cells s) (devicelist s) as" and st: "\<forall>a \<in> set as. startable E m s a"
  proof -
    from start_alloc_loop_chain [OF ch st, of 0] obtain u where
      r: "start_alloc_loop E m s (devicelist s) 0 = Some (Inr (int (length as)), u)"
      and al: "allocated E m s as u" by auto
    have "\<forall>a \<in> set as. \<not> started_at u a \<and> loaded_at m u a"
    proof
      fix a assume a: "a \<in> set as"
      with st have "startable E m s a" by blast
      from allocated_loaded [OF al a this, of "{}"]
      show "\<not> started_at u a \<and> loaded_at m u a" by simp
    qed
    with r show ?thesis by blast
  qed
  have part3: "(\<forall>a \<in> set as. started_at s1 a \<and> loaded_at m s1 a) \<and>
         (\<exists>s2. device_list_stop E s1 = Some (Inr (), s2) \<and> (\<forall>a \<in> set as. stopped_at s2 a))"
    if ch: "chain (cells s) (devicelist s) as" and st: "\<forall>a \<in> set as. startable E m s a"
      and run: "device_list_start E m s = Some (Inr n, s1)"
  proof -
    from start_then_marked [OF ch run] obtain u A where
      al: "allocated E m ?s0 as u" and s1: "s1 = mark u A" by blast
    have ch0: "chain (cells ?s0) (devicelist ?s0) as" using ch by simp
    have st0: "\<forall>a \<in> set as. startable E m ?s0 a" using st by (simp add: startable_def)
    have "\<forall>a \<in> set as. loaded_at m s1 a"
    proof
      fix a assume a: "a \<in> set as"
      with st0 have "startable E m ?s0 a" by blast
      from allocated_loaded [OF al a this, of A] show "loaded_at m s1 a" by (simp add: s1)
    qed
    with start_all_started [OF ch run]
    have 1: "\<forall>a \<in> set as. started_at s1 a \<and> loaded_at m s1 a" by blast
    from stop_marked [OF ch0 al, of A]
    have 2: "\<exists>s2. device_list_stop E s1 = Some (Inr (), s2) \<and> (\<forall>a \<in> set as. stopped_at s2 a)"
      unfolding s1 by blast
    from 1 2 show ?thesis ..
  qed
  from part1 part2 part3 show ?thesis by blast
qed

lemma wildcard_chain_env: "DEVICE_TYPE_WILDCARD chain_env = None"
  by (simp add: chain_env_def test_env_def)

theorem runtime_fields_lifetime_witness:
  "(\<exists>t'. device_list_add chain_env empty_registry (Some 0) ''a'' = Some (Inr 0, t') \<and>
         added_at t' 0) \<and>
   (\<exists>u. start_alloc_loop chain_env 5 (two_attached chain_env) (Some 0) 0 = Some (Inr 2, u) \<and>
        list_all (\<lambda>a. \<not> started_at u a \<and> loaded_at 5 u a) [0, 1]) \<and>
   (\<exists>s1 s2. device_list_start chain_env 5 (two_attached chain_env) = Some (Inr 1, s1) \<and>
        list_all (\<lambda>a. started_at s1 a \<and> loaded_at 5 s1 a) [0, 1] \<and>
        device_list_stop chain_env s1 = Some (Inr (), s2) \<and> list_all (stopped_at s2) [0, 1])"
proof -
  let ?t' = "linked chain_env empty_registry [] 0 ''a''"
  have add: "device_list_add chain_env empty_registry (Some 0) ''a'' = Some (Inr 0, ?t')"
    using device_list_add_linked [OF registry_empty, of 0 chain_env "''a''"]
    by (simp add: wildcard_chain_env empty_registry_def)
  from start_in_order [OF chain_two_attached _ startable_two_attached waits_chain_env]
    token_bytes_examples
  obtain s1 where run: "device_list_start chain_env 5 (two_attached chain_env) = Some (Inr 1, s1)"
    by auto
  have st: "\<forall>a \<in> set [0, 1]. startable chain_env 5 (two_attached chain_env) a"
    using startable_two_attached [of chain_env] token_bytes_examples by simp
  have dl: "devicelist (two_attached chain_env) = Some 0" by (simp add: two_attached_def)
  note inst = runtime_fields_lifetime [of chain_env empty_registry "Some 0" "''a''" 0 ?t'
    "two_attached chain_env" "[0, 1]" 5 1 s1]
  from inst add have 1: "added_at ?t' 0" by blast
  from inst chain_two_attached st
  have 2: "\<exists>u. start_alloc_loop chain_env 5 (two_attached chain_env) (Some 0) 0 = Some (Inr 2, u) \<and>
        list_all (\<lambda>a. \<not> started_at u a \<and> loaded_at 5 u a) [0, 1]"
    by (simp add: dl)
  from inst chain_two_attached st run
  have 3: "list_all (\<lambda>a. started_at s1 a \<and> loaded_at 5 s1 a) [0, 1] \<and>
        (\<exists>s2. device_list_stop chain_env s1 = Some (Inr (), s2) \<and> list_all (stopped_at s2) [0, 1])"
    by simp
  from add 1 2 3 run show ?thesis by blast
qed

end
